theory Spec2Isabelle
  imports Complex_Main "HOL-Library.Word" "HOL-Library.Signed_Division" "HOL-Library.Monad_Syntax"
begin

section \<open>Machine types\<close>

text \<open>
  Both programs (\<^verbatim>\<open>SumPrime.c\<close> and \<^verbatim>\<open>SumPrime.cpp\<close>) use \<^verbatim>\<open>int\<close> for the
  candidate and the trial divisor and \<^verbatim>\<open>long long\<close> for the accumulator. They are
  modelled as 32-bit and 64-bit words read in two's complement (\<open>sint\<close>); \<open>+\<close> wraps.
\<close>

type_synonym c_int = "32 word"
type_synonym c_long_long = "64 word"

text \<open>
  A \<^verbatim>\<open>double\<close> is either not-a-number or a rational value (every finite binary64 value
  is a rational). Infinities do not occur in these programs.
\<close>

datatype double = NaN | Dbl rat

subsection \<open>The operators of the source\<close>

text \<open>
  \<^verbatim>\<open>n % i\<close> on \<^verbatim>\<open>int\<close>: the remainder of the division truncated towards zero. A zero
  divisor (and \<^verbatim>\<open>INT_MIN % -1\<close>) has no defined result in C; it is the value \<open>None\<close>.
\<close>

definition c_mod :: "c_int \<Rightarrow> c_int \<Rightarrow> c_int option" where
  "c_mod a b =
     (if b = 0 \<or> (sint a = - (2 ^ 31) \<and> sint b = - 1) then None
      else Some (word_of_int (sint a smod sint b)))"

text \<open>The implicit conversion of an \<^verbatim>\<open>int\<close> to \<^verbatim>\<open>double\<close> is exact.\<close>

definition int_to_double :: "c_int \<Rightarrow> double" where
  "int_to_double i = Dbl (of_int (sint i))"

text \<open>The comparison \<^verbatim>\<open><=\<close> on doubles is false as soon as one side is not a number.\<close>

fun le_double :: "double \<Rightarrow> double \<Rightarrow> bool" where
  "le_double (Dbl a) (Dbl b) = (a \<le> b)"
| "le_double _ _ = False"

subsection \<open>The library function \<^verbatim>\<open>sqrt\<close>\<close>

text \<open>The integer square root, by binary descent.\<close>

function isqrt :: "int \<Rightarrow> int" where
  "isqrt x =
     (if x < 4 then (if x \<le> 0 then 0 else 1)
      else (let r = 2 * isqrt (x div 4) in if (r + 1) * (r + 1) \<le> x then r + 1 else r))"
  by pat_completeness auto
termination
  by (relation "measure nat") auto

declare isqrt.simps [simp del]

text \<open>The binary exponent of the square root of \<open>x \<ge> 1\<close>: the largest \<open>e\<close> with \<open>4 ^ e \<le> x\<close>.\<close>

function sqrt_exponent :: "int \<Rightarrow> nat" where
  "sqrt_exponent x = (if x < 4 then 0 else Suc (sqrt_exponent (x div 4)))"
  by pat_completeness auto
termination
  by (relation "measure nat") auto

declare sqrt_exponent.simps [simp del]

text \<open>
  \<^verbatim>\<open>sqrt(n)\<close> for an \<^verbatim>\<open>int n\<close>: the argument is converted to \<^verbatim>\<open>double\<close> (exactly) and
  the IEEE 754 square root is taken, which is the real square root rounded to the nearest
  binary64 value, that is to 53 significant bits. With \<open>2 ^ e \<le> sqrt x < 2 ^ (e + 1)\<close> the
  result is \<open>m / 2 ^ (52 - e)\<close>, where \<open>m\<close> is the integer nearest to
  \<open>sqrt x * 2 ^ (52 - e) = sqrt (x * 4 ^ (52 - e))\<close>. A tie cannot happen: \<open>k + 1/2\<close> is
  never the square root of an integer. A negative argument gives not-a-number.
\<close>

definition sqrt_double :: "c_int \<Rightarrow> double" where
  "sqrt_double n =
     (let x = sint n in
      if x < 0 then NaN
      else if x = 0 then Dbl 0
      else
        (let s = 52 - sqrt_exponent x;
             N = x * 4 ^ s;
             k = isqrt N;
             m = (if k * k + k < N then k + 1 else k)
         in Dbl (of_int m / 2 ^ s)))"

section \<open>The primality test\<close>

text \<open>
  \<^verbatim>\<open>
  bool is_prime(int n) {                      // SumPrime.cpp
      if (n <= 1) return false;
      for (int i = 2; i <= sqrt(n); i++)
          if (n % i == 0) return false;
      return true;
  }
  \<close>
  The loop is a partial function in the option monad: \<open>None\<close> is a run that does not
  return (or that divides by zero).
\<close>

partial_function (option) is_prime_loop_cpp :: "c_int \<Rightarrow> c_int \<Rightarrow> bool option" where
  "is_prime_loop_cpp n i =
     (if le_double (int_to_double i) (sqrt_double n) then
        do { r \<leftarrow> c_mod n i;
             if r = 0 then Some False else is_prime_loop_cpp n (i + 1) }
      else Some True)"

declare is_prime_loop_cpp.simps [code]

definition is_prime_cpp :: "c_int \<Rightarrow> bool option" where
  "is_prime_cpp n = (if n \<le>s 1 then Some False else is_prime_loop_cpp n 2)"

text \<open>
  \<^verbatim>\<open>
  int is_prime(int n) {                       // SumPrime.c
      if (n <= 1) return 0;
      for (int i = 2; i <= sqrt(n); i++)
          if (n % i == 0) return 0;
      return 1;
  }
  \<close>
\<close>

partial_function (option) is_prime_loop_c :: "c_int \<Rightarrow> c_int \<Rightarrow> c_int option" where
  "is_prime_loop_c n i =
     (if le_double (int_to_double i) (sqrt_double n) then
        do { r \<leftarrow> c_mod n i;
             if r = 0 then Some 0 else is_prime_loop_c n (i + 1) }
      else Some 1)"

declare is_prime_loop_c.simps [code]

definition is_prime_c :: "c_int \<Rightarrow> c_int option" where
  "is_prime_c n = (if n \<le>s 1 then Some 0 else is_prime_loop_c n 2)"

section \<open>The summation driver\<close>

text \<open>
  \<^verbatim>\<open>
  long long sum = 0;
  for (int i = 2; i < 1000000; i++)
      if (is_prime(i)) sum += i;
  \<close>
  \<^verbatim>\<open>sum += i\<close> converts \<^verbatim>\<open>i\<close> to \<^verbatim>\<open>long long\<close> (sign extension, \<open>scast\<close>) and adds.
  One iteration of the body is \<open>sum_step\<close>; the loop threads the accumulator
  (the variable \<^verbatim>\<open>sum\<close> of the source, here \<open>acc\<close>).
\<close>

definition sum_step_cpp :: "c_int \<Rightarrow> c_long_long \<Rightarrow> c_long_long option" where
  "sum_step_cpp i acc = do { b \<leftarrow> is_prime_cpp i; Some (if b then acc + scast i else acc) }"

partial_function (option) sum_loop_cpp :: "c_int \<Rightarrow> c_long_long \<Rightarrow> c_long_long option" where
  "sum_loop_cpp i acc =
     (if i <s 1000000 then do { acc' \<leftarrow> sum_step_cpp i acc; sum_loop_cpp (i + 1) acc' }
      else Some acc)"

declare sum_loop_cpp.simps [code]

definition main_sum_cpp :: "c_long_long option" where
  "main_sum_cpp = sum_loop_cpp 2 0"

definition sum_step_c :: "c_int \<Rightarrow> c_long_long \<Rightarrow> c_long_long option" where
  "sum_step_c i acc = do { b \<leftarrow> is_prime_c i; Some (if b \<noteq> 0 then acc + scast i else acc) }"

partial_function (option) sum_loop_c :: "c_int \<Rightarrow> c_long_long \<Rightarrow> c_long_long option" where
  "sum_loop_c i acc =
     (if i <s 1000000 then do { acc' \<leftarrow> sum_step_c i acc; sum_loop_c (i + 1) acc' }
      else Some acc)"

declare sum_loop_c.simps [code]

definition main_sum_c :: "c_long_long option" where
  "main_sum_c = sum_loop_c 2 0"


section \<open>Trial division, as a predicate on the integers\<close>

text \<open>
  What the loop of the primality test decides once it stands at the divisor \<open>j\<close>: no
  \<open>d\<close> from \<open>j\<close> on with \<open>d * d \<le> x\<close> divides \<open>x\<close>.
\<close>

definition no_divisor_from :: "int \<Rightarrow> int \<Rightarrow> bool" where
  "no_divisor_from x j \<longleftrightarrow> (\<forall>d. j \<le> d \<and> d * d \<le> x \<longrightarrow> \<not> d dvd x)"

definition trial_prime :: "int \<Rightarrow> bool" where
  "trial_prime x \<longleftrightarrow> 1 < x \<and> no_divisor_from x 2"

section \<open>The sum of the accepted candidates, and the states of the driver's loop\<close>

text \<open>The sum of the integers in \<open>[a, b)\<close> that trial division accepts.\<close>

definition prime_sum :: "int \<Rightarrow> int \<Rightarrow> int" where
  "prime_sum a b = (\<Sum>p \<in> {a..<b}. if trial_prime p then p else 0)"

text \<open>
  The states \<open>(i, sum)\<close> in which the driver's loop stands at its head: \<open>(2, 0)\<close> at
  entry, and the state after one more iteration of the body while \<open>i < 1000000\<close>.
\<close>

inductive loop_state_cpp :: "c_int \<Rightarrow> c_long_long \<Rightarrow> bool" where
  init_cpp: "loop_state_cpp 2 0"
| step_cpp: "loop_state_cpp i acc \<Longrightarrow> i <s 1000000 \<Longrightarrow> sum_step_cpp i acc = Some acc' \<Longrightarrow>
     loop_state_cpp (i + 1) acc'"

inductive loop_state_c :: "c_int \<Rightarrow> c_long_long \<Rightarrow> bool" where
  init_c: "loop_state_c 2 0"
| step_c: "loop_state_c i acc \<Longrightarrow> i <s 1000000 \<Longrightarrow> sum_step_c i acc = Some acc' \<Longrightarrow>
     loop_state_c (i + 1) acc'"

text \<open>Trial division with the exact integer test \<open>j * j \<le> x\<close>, for evaluation.\<close>

function trial_from :: "int \<Rightarrow> int \<Rightarrow> bool" where
  "trial_from x j =
     (if 0 \<le> j \<and> j * j \<le> x then (if x mod j = 0 then False else trial_from x (j + 1)) else True)"
  by pat_completeness auto
termination
proof (relation "measure (\<lambda>(x, j). nat (x + 1 - j))")
  show "wf (measure (\<lambda>(x, j). nat (x + 1 - j)))" by simp
next
  fix x j :: int
  assume a: "0 \<le> j \<and> j * j \<le> x"
  have "j \<le> j * j"
  proof (cases "j = 0")
    case False
    with a have "1 \<le> j" by simp
    then have "j * 1 \<le> j * j" using a by (intro mult_left_mono) simp_all
    then show ?thesis by simp
  qed simp
  with a show "((x, j + 1), (x, j)) \<in> measure (\<lambda>(x, j). nat (x + 1 - j))" by simp
qed

declare trial_from.simps [simp del]

section \<open>Output\<close>

text \<open>
  \<^verbatim>\<open>
  printf("Sum: %lld\n", sum);                                              // SumPrime.c
  printf("Time: %.2f seconds\n", (double)(end - start)/CLOCKS_PER_SEC);
  cout << "Sum: " << sum << "\n";                                         // SumPrime.cpp
  cout << "Time: " << elapsed.count() << " seconds\n";
  \<close>
  The output is the list of the two lines. The elapsed time is an input of the model:
  the finite \<^verbatim>\<open>double\<close> that the program hands to the formatter, as a rational.
\<close>

subsection \<open>Decimal digits\<close>

definition digit_char :: "nat \<Rightarrow> char" where
  "digit_char d = ''0123456789'' ! (d mod 10)"

function digits :: "int \<Rightarrow> string" where
  "digits k =
     (if k < 10 then [digit_char (nat k)] else digits (k div 10) @ [digit_char (nat (k mod 10))])"
  by pat_completeness auto
termination
  by (relation "measure nat") auto

declare digits.simps [simp del]

definition show_int :: "int \<Rightarrow> string" where
  "show_int k = (if k < 0 then ''-'' @ digits (- k) else digits k)"

definition round_half_even :: "rat \<Rightarrow> int" where
  "round_half_even q =
     (let f = \<lfloor>q\<rfloor>; r = q - of_int f
      in if r < 1 / 2 then f else if 1 / 2 < r then f + 1 else if even f then f else f + 1)"

definition printf_2f :: "rat \<Rightarrow> string" where
  "printf_2f t =
     (let h = round_half_even (\<bar>t\<bar> * 100)
      in (if t < 0 then ''-'' else []) @
         digits (h div 100) @ ''.'' @
         [digit_char (nat (h mod 100 div 10)), digit_char (nat (h mod 10))])"

function exponent_up :: "rat \<Rightarrow> nat" where
  "exponent_up a = (if a < 10 then 0 else Suc (exponent_up (a / 10)))"
  by pat_completeness auto
termination
proof (relation "measure (\<lambda>a. nat \<lfloor>a\<rfloor>)")
  show "wf (measure (\<lambda>a :: rat. nat \<lfloor>a\<rfloor>))" by simp
next
  fix a :: rat
  assume "\<not> a < 10"
  then have a: "10 \<le> a" by simp
  then have "a / 10 < a - 1" by (simp add: field_simps)
  then have "\<lfloor>a / 10\<rfloor> \<le> \<lfloor>a - 1\<rfloor>" by (intro floor_mono) simp
  moreover have "\<lfloor>a - 1\<rfloor> = \<lfloor>a\<rfloor> - 1" by simp
  moreover have "10 \<le> \<lfloor>a\<rfloor>" using a by (simp add: le_floor_iff)
  ultimately show "(a / 10, a) \<in> measure (\<lambda>a. nat \<lfloor>a\<rfloor>)" by simp
qed

function exponent_down :: "rat \<Rightarrow> nat" where
  "exponent_down a = (if a \<le> 0 \<or> 1 \<le> a then 0 else Suc (exponent_down (a * 10)))"
  by pat_completeness auto
termination
proof (relation "measure (\<lambda>a. nat \<lceil>1 / a\<rceil>)")
  show "wf (measure (\<lambda>a :: rat. nat \<lceil>1 / a\<rceil>))" by simp
next
  fix a :: rat
  assume "\<not> (a \<le> 0 \<or> 1 \<le> a)"
  then have a: "0 < a" "a < 1" by simp_all
  define b where "b = 1 / a"
  have b: "1 < b" using a by (simp add: b_def)
  have "1 / (a * 10) = b / 10" by (simp add: b_def)
  moreover have "\<lceil>b / 10\<rceil> < \<lceil>b\<rceil>"
  proof (cases "b \<le> 10")
    case True
    then have "\<lceil>b / 10\<rceil> \<le> 1" by (simp add: ceiling_le_iff)
    moreover have "1 < \<lceil>b\<rceil>" using b by (simp add: less_ceiling_iff)
    ultimately show ?thesis by linarith
  next
    case False
    then have "b / 10 \<le> b - 1" by (simp add: field_simps)
    also have "\<dots> \<le> of_int \<lceil>b\<rceil> - 1" by (simp add: le_of_int_ceiling)
    finally show ?thesis by (simp add: ceiling_less_iff)
  qed
  moreover have "0 < \<lceil>b\<rceil>" using b by (simp add: less_ceiling_iff)
  ultimately show "(a * 10, a) \<in> measure (\<lambda>a. nat \<lceil>1 / a\<rceil>)"
    by (simp add: b_def)
qed

declare exponent_up.simps [simp del]
declare exponent_down.simps [simp del]

definition strip_zeros :: "string \<Rightarrow> string" where
  "strip_zeros s = rev (dropWhile (\<lambda>c. c = CHR ''0'') (rev s))"

definition printf_g :: "rat \<Rightarrow> string" where
  "printf_g t =
     (if t = 0 then ''0''
      else
        (let a = \<bar>t\<bar>;
             e = (if 1 \<le> a then int (exponent_up a) else - int (exponent_down a));
             m = round_half_even (if 5 \<le> e then a / 10 ^ nat (e - 5) else a * 10 ^ nat (5 - e));
             X = (if m = 1000000 then e + 1 else e);
             ds = digits (if m = 1000000 then 100000 else m)
         in (if t < 0 then ''-'' else []) @
            (if - 4 \<le> X \<and> X < 6 then
               (if 0 \<le> X then
                  (let frac = strip_zeros (drop (nat X + 1) ds)
                   in take (nat X + 1) ds @ (if frac = [] then [] else ''.'' @ frac))
                else ''0.'' @ replicate (nat (- X - 1)) (CHR ''0'') @ strip_zeros ds)
             else
               (let frac = strip_zeros (drop 1 ds)
                in take 1 ds @ (if frac = [] then [] else ''.'' @ frac) @
                   ''e'' @ (if X < 0 then ''-'' else ''+'') @
                   (if \<bar>X\<bar> < 10 then ''0'' else []) @ digits \<bar>X\<bar>))))"

definition sum_line_c :: "c_long_long \<Rightarrow> string" where
  "sum_line_c s = ''Sum: '' @ show_int (sint s)"

definition time_line_c :: "rat \<Rightarrow> string" where
  "time_line_c elapsed = ''Time: '' @ printf_2f elapsed @ '' seconds''"

definition main_c :: "rat \<Rightarrow> string list option" where
  "main_c elapsed = do { s \<leftarrow> main_sum_c; Some [sum_line_c s, time_line_c elapsed] }"

definition sum_line_cpp :: "c_long_long \<Rightarrow> string" where
  "sum_line_cpp s = ''Sum: '' @ show_int (sint s)"

definition time_line_cpp :: "rat \<Rightarrow> string" where
  "time_line_cpp elapsed = ''Time: '' @ printf_g elapsed @ '' seconds''"

definition main_cpp :: "rat \<Rightarrow> string list option" where
  "main_cpp elapsed = do { s \<leftarrow> main_sum_cpp; Some [sum_line_cpp s, time_line_cpp elapsed] }"

section \<open>The sum of the accepted candidates, by a sieve\<close>

text \<open>
  The driver tests 999998 candidates by trial division. Its sum is evaluated here a
  second way, by a recursion over the accepted candidates up to the square root of the
  bound, and the two are proved equal further down.

  An integer is \<open>q\<close>-rough when no \<open>d\<close> of \<open>[2, q]\<close> divides it; \<open>n \<ge> 2\<close> survives the
  sieve by \<open>2, \<dots>, q\<close> when no \<open>d\<close> of \<open>[2, q]\<close> other than \<open>n\<close> itself divides it;
  \<open>sieve_sum q v\<close> is the sum of the survivors in \<open>[2, v]\<close>.
\<close>

definition rough :: "int \<Rightarrow> int \<Rightarrow> bool" where
  "rough q m \<longleftrightarrow> (\<forall>d. 2 \<le> d \<and> d \<le> q \<longrightarrow> \<not> d dvd m)"

definition unsieved :: "int \<Rightarrow> int \<Rightarrow> bool" where
  "unsieved q n \<longleftrightarrow> 2 \<le> n \<and> (\<forall>d. 2 \<le> d \<and> d \<le> q \<and> d < n \<longrightarrow> \<not> d dvd n)"

definition sieve_sum :: "int \<Rightarrow> int \<Rightarrow> int" where
  "sieve_sum q v = (\<Sum>n \<in> {2..v}. if unsieved q n then n else 0)"

text \<open>The sum \<open>2 + 3 + \<dots> + u\<close>.\<close>

definition tri :: "int \<Rightarrow> int" where
  "tri u = u * (u + 1) div 2 - 1"

text \<open>
  The table lists, in descending order, the candidates \<open>p \<le> R\<close> that trial division
  accepts, each with its square and with the sum of the accepted candidates below it.
\<close>

type_synonym entry = "int \<times> int \<times> int"

function prime_table :: "int \<Rightarrow> int \<Rightarrow> int \<Rightarrow> entry list \<Rightarrow> entry list" where
  "prime_table R q c acc =
     (if q \<le> R then
        (if trial_from q 2 then prime_table R (q + 1) (c + q) ((q, q * q, c) # acc)
         else prime_table R (q + 1) c acc)
      else acc)"
  by pat_completeness auto
termination
  by (relation "measure (\<lambda>(R, q, c, acc). nat (R + 1 - q))") auto

declare prime_table.simps [simp del]

definition prime_table_found :: "bool \<Rightarrow> int \<Rightarrow> int \<Rightarrow> int \<Rightarrow> entry list \<Rightarrow> entry list" where
  "prime_table_found b R q c acc =
     (if b then prime_table R (q + 1) (c + q) ((q, q * q, c) # acc) else prime_table R (q + 1) c acc)"

definition prime_table_next :: "bool \<Rightarrow> int \<Rightarrow> int \<Rightarrow> int \<Rightarrow> entry list \<Rightarrow> entry list" where
  "prime_table_next b R q c acc = (if b then prime_table_found (trial_from q 2) R q c acc else acc)"

text \<open>
  Sieving by an accepted \<open>p\<close> with \<open>p * p \<le> v\<close> removes from the survivors in \<open>[2, v]\<close> the
  multiples \<open>p * m\<close> whose cofactor \<open>m\<close> survives the sieve below \<open>p\<close> and is at least \<open>p\<close>.
\<close>

fun sieve_rec :: "int \<Rightarrow> entry list \<Rightarrow> int" where
  "sieve_rec v [] = tri v"
| "sieve_rec v ((p, pp, c) # ps) =
     (if pp \<le> v then sieve_rec v ps - p * (sieve_rec (v div p) ps - c) else sieve_rec v ps)"

definition sieve_rec_at :: "bool \<Rightarrow> int \<Rightarrow> int \<Rightarrow> int \<Rightarrow> entry list \<Rightarrow> int" where
  "sieve_rec_at b v p c ps =
     (if b then sieve_rec v ps - p * (sieve_rec (v div p) ps - c) else sieve_rec v ps)"

definition prime_sum_upto :: "int \<Rightarrow> int \<Rightarrow> int" where
  "prime_sum_upto N R = sieve_rec N (prime_table R 2 0 [])"

text \<open>What the recursion needs of a table that stands for the sieve by \<open>2, \<dots>, q\<close>.\<close>

fun table_ok :: "int \<Rightarrow> entry list \<Rightarrow> bool" where
  "table_ok q [] \<longleftrightarrow> q < 2"
| "table_ok q ((p, pp, c) # ps) \<longleftrightarrow>
     trial_prime p \<and> p \<le> q \<and> (\<forall>n. p < n \<and> n \<le> q \<longrightarrow> \<not> trial_prime n) \<and>
     pp = p * p \<and> c = prime_sum 2 p \<and> table_ok (p - 1) ps"


section \<open>The square root in floating point\<close>


lemma isqrt_correct:
  "0 \<le> x \<Longrightarrow> 0 \<le> isqrt x \<and> isqrt x * isqrt x \<le> x \<and> x < (isqrt x + 1) * (isqrt x + 1)"
proof (induction x rule: isqrt.induct)
  case (1 x)
  show ?case
  proof (cases "x < 4")
    case True
    with "1.prems" show ?thesis by (simp add: isqrt.simps [of x])
  next
    case False
    define y where "y = x div 4"
    define t where "t = isqrt y"
    have y: "0 \<le> y" "4 * y \<le> x" "x < 4 * y + 4"
      using "1.prems" by (simp_all add: y_def)
    from "1.IH" [OF False] y(1)
    have ih: "0 \<le> t" "t * t \<le> y" "y < (t + 1) * (t + 1)"
      by (simp_all add: y_def t_def)
    have lo: "(2 * t) * (2 * t) \<le> x"
      using ih(2) y(2) by (simp add: algebra_simps)
    have "y + 1 \<le> (t + 1) * (t + 1)" using ih(3) by simp
    then have hi: "x < (2 * t + 2) * (2 * t + 2)"
      using y(3) by (simp add: algebra_simps)
    have eq: "isqrt x = (if (2 * t + 1) * (2 * t + 1) \<le> x then 2 * t + 1 else 2 * t)"
      using False by (simp add: isqrt.simps [of x] Let_def y_def t_def)
    show ?thesis
      using lo hi ih(1) by (auto simp: eq algebra_simps)
  qed
qed

lemma sqrt_exponent_bounds:
  "1 \<le> x \<Longrightarrow> 4 ^ sqrt_exponent x \<le> x \<and> x < 4 ^ Suc (sqrt_exponent x)"
proof (induction x rule: sqrt_exponent.induct)
  case (1 x)
  show ?case
  proof (cases "x < 4")
    case True
    with "1.prems" show ?thesis by (simp add: sqrt_exponent.simps [of x])
  next
    case False
    then have "1 \<le> x div 4" by simp
    from "1.IH" [OF False this] False show ?thesis
      by (simp add: sqrt_exponent.simps [of x]) linarith
  qed
qed

lemma sqrt_exponent_le:
  assumes "1 \<le> x" "x < 2 ^ 31"
  shows "sqrt_exponent x \<le> 15"
proof (rule ccontr)
  assume "\<not> sqrt_exponent x \<le> 15"
  then have "16 \<le> sqrt_exponent x" by simp
  then have "(4::int) ^ 16 \<le> 4 ^ sqrt_exponent x"
    by (intro power_increasing) simp_all
  with sqrt_exponent_bounds [OF assms(1)] assms(2) show False by simp
qed


lemma sint32_bounds: "- (2 ^ 31) \<le> sint (w :: c_int)" "sint (w :: c_int) < 2 ^ 31"
  using sint_ge [of w] sint_lt [of w] by simp_all

lemma sqrt_double_pos:
  assumes "0 < sint n"
  obtains m s where "sqrt_double n = Dbl (of_int m / 2 ^ s)" and "37 \<le> s"
    and "isqrt (sint n * 4 ^ s) \<le> m" and "m \<le> isqrt (sint n * 4 ^ s) + 1"
proof -
  define s where "s = 52 - sqrt_exponent (sint n)"
  define k where "k = isqrt (sint n * 4 ^ s)"
  define m where "m = (if k * k + k < sint n * 4 ^ s then k + 1 else k)"
  have "sqrt_exponent (sint n) \<le> 15"
    using assms sint32_bounds(2) [of n] by (intro sqrt_exponent_le) simp_all
  then have "37 \<le> s" by (simp add: s_def)
  moreover have "sqrt_double n = Dbl (of_int m / 2 ^ s)"
    using assms by (simp add: sqrt_double_def Let_def s_def k_def m_def)
  moreover have "k \<le> m" "m \<le> k + 1" by (simp_all add: m_def)
  ultimately show thesis using that by (simp add: k_def)
qed

lemma le_sqrt_double_iff:
  assumes n: "0 < sint n" and i: "0 \<le> sint i"
  shows "le_double (int_to_double i) (sqrt_double n) \<longleftrightarrow> sint i * sint i \<le> sint n"
proof -
  define x where "x = sint n"
  define j where "j = sint i"
  obtain m s where sq: "sqrt_double n = Dbl (of_int m / 2 ^ s)" and s: "37 \<le> s"
    and lo: "isqrt (x * 4 ^ s) \<le> m" and hi: "m \<le> isqrt (x * 4 ^ s) + 1"
    using sqrt_double_pos [OF n] unfolding x_def by blast
  define N where "N = x * 4 ^ s"
  define k where "k = isqrt N"
  define c :: int where "c = 2 ^ s"
  have c: "0 < c" "c * c = 4 ^ s" "2 ^ 37 \<le> c"
  proof -
    show "0 < c" by (simp add: c_def)
    show "c * c = 4 ^ s" by (simp add: c_def flip: power_mult_distrib)
    show "2 ^ 37 \<le> c" unfolding c_def using s by (intro power_increasing) simp_all
  qed
  have j: "0 \<le> j" "j < 2 ^ 31" using i sint32_bounds(2) [of i] by (simp_all add: j_def)
  have x: "0 < x" using n by (simp add: x_def)
  have N: "0 \<le> N" "N = x * (c * c)" using x c by (simp_all add: N_def)
  from isqrt_correct [OF N(1)]
  have k: "0 \<le> k" "k * k \<le> N" "N < (k + 1) * (k + 1)" by (simp_all add: k_def)
  have cmp: "le_double (int_to_double i) (sqrt_double n) \<longleftrightarrow> j * c \<le> m"
  proof -
    have "le_double (int_to_double i) (sqrt_double n) \<longleftrightarrow> (of_int j :: rat) \<le> of_int m / of_int c"
      by (simp add: sq int_to_double_def j_def c_def)
    also have "\<dots> \<longleftrightarrow> (of_int (j * c) :: rat) \<le> of_int m"
      using c(1) by (simp add: pos_le_divide_eq)
    also have "\<dots> \<longleftrightarrow> j * c \<le> m" by (simp only: of_int_le_iff)
    finally show ?thesis .
  qed
  show ?thesis
  proof (cases "j * j \<le> x")
    case True
    have "j * c \<le> k"
    proof (rule ccontr)
      assume "\<not> j * c \<le> k"
      then have "k + 1 \<le> j * c" by simp
      then have "(k + 1) * (k + 1) \<le> (j * c) * (j * c)"
        using k(1) by (intro mult_mono) simp_all
      also have "\<dots> = (j * j) * (c * c)" by (simp add: algebra_simps)
      also have "\<dots> \<le> x * (c * c)"
        using True c(1) by (intro mult_right_mono) simp_all
      finally show False using k(3) N(2) by simp
    qed
    with lo have "j * c \<le> m" by (simp add: k_def N_def)
    with True show ?thesis by (simp add: cmp j_def x_def)
  next
    case False
    then have jx: "x + 1 \<le> j * j" by simp
    have j1: "1 \<le> j"
    proof (rule ccontr)
      assume "\<not> 1 \<le> j"
      with j(1) have "j = 0" by simp
      with jx x show False by simp
    qed
    have "m < j * c"
    proof (rule ccontr)
      assume "\<not> m < j * c"
      with hi have le: "j * c - 1 \<le> k" by (simp add: k_def N_def)
      have nonneg: "0 \<le> j * c - 1"
        using j1 c(1) by (smt (verit) mult_le_cancel_right1)
      have "(j * c - 1) * (j * c - 1) \<le> k * k"
        using le nonneg by (intro mult_mono) simp_all
      also have "\<dots> \<le> N" by (rule k(2))
      finally have a: "(j * j) * (c * c) - 2 * (j * c) + 1 \<le> x * (c * c)"
        by (simp add: N(2) algebra_simps)
      have "(x + 1) * (c * c) \<le> (j * j) * (c * c)"
        using jx c(1) by (intro mult_right_mono) simp_all
      with a have b: "c * c + 1 \<le> 2 * (j * c)" by (simp add: algebra_simps)
      have "2 * j \<le> c" using j(2) c(3) by simp
      then have "(2 * j) * c \<le> c * c"
        using c(1) by (intro mult_right_mono) simp_all
      with b show False by simp
    qed
    with False show ?thesis by (simp add: cmp j_def x_def)
  qed
qed



lemma no_divisor_from_step:
  assumes "0 \<le> j" "j * j \<le> x"
  shows "no_divisor_from x j \<longleftrightarrow> \<not> j dvd x \<and> no_divisor_from x (j + 1)"
proof -
  have "j \<le> d \<longleftrightarrow> d = j \<or> j + 1 \<le> d" for d by auto
  with assms show ?thesis unfolding no_divisor_from_def by auto
qed

lemma no_divisor_from_stop:
  assumes "0 \<le> j" "x < j * j"
  shows "no_divisor_from x j"
  unfolding no_divisor_from_def
proof (intro allI impI)
  fix d assume d: "j \<le> d \<and> d * d \<le> x"
  with assms(1) have "j * j \<le> d * d" by (intro mult_mono) simp_all
  with d assms(2) show "\<not> d dvd x" by simp
qed

lemma c_mod_pos:
  assumes "0 < sint n" "0 < sint i"
  shows "\<exists>r. c_mod n i = Some r \<and> (r = 0 \<longleftrightarrow> sint i dvd sint n)"
proof -
  define x where "x = sint n"
  define j where "j = sint i"
  have xj: "0 < x" "0 < j" "j < 2 ^ 31" using assms sint32_bounds(2) [of i] by (simp_all add: x_def j_def)
  have "i \<noteq> 0" using assms(2) by auto
  then have cm: "c_mod n i = Some (word_of_int (x smod j))"
    using assms by (simp add: c_mod_def x_def j_def)
  have sm: "x smod j = x mod j"
    using xj by (simp add: signed_modulo_int_def)
  have rng: "0 \<le> x mod j" "x mod j < 2 ^ 31"
    using xj pos_mod_bound [of j x] pos_mod_sign [of j x] by linarith+
  have "(word_of_int (x mod j) :: c_int) = 0 \<longleftrightarrow> x mod j = 0"
  proof
    assume "(word_of_int (x mod j) :: c_int) = 0"
    then have "(x mod j) mod 2 ^ 32 = 0"
      by (simp add: word_of_int_eq_0_iff dvd_eq_mod_eq_0 take_bit_eq_mod)
    moreover have "(x mod j) mod 2 ^ 32 = x mod j"
      using rng by (intro mod_pos_pos_trivial) simp_all
    ultimately show "x mod j = 0" by simp
  qed simp
  then have "\<exists>r. c_mod n i = Some r \<and> (r = 0 \<longleftrightarrow> j dvd x)"
    by (simp add: cm sm dvd_eq_mod_eq_0)
  then show ?thesis by (simp add: x_def j_def)
qed

lemma loop_index_bound:
  assumes "0 \<le> j" "j * j \<le> x" "x < 2 ^ 31"
  shows "j < (46341 :: int)"
proof (rule ccontr)
  assume "\<not> j < 46341"
  then have "(46341 :: int) * 46341 \<le> j * j" by (intro mult_mono) simp_all
  with assms show False by simp
qed

lemma sint_succ:
  assumes "sint (i :: c_int) < 46341"
  shows "sint (i + 1) = sint i + 1"
proof -
  have "sint (i + 1) = signed_take_bit 31 (sint i + 1)"
    by (simp add: sint_word_ariths)
  also have "\<dots> = sint i + 1"
    using assms sint32_bounds(1) [of i] by (intro signed_take_bit_int_eq_self) simp_all
  finally show ?thesis .
qed

lemma is_prime_loop_cpp_char:
  assumes "1 < sint n" "2 \<le> sint i" "(sint i - 1) * (sint i - 1) \<le> sint n"
  shows "is_prime_loop_cpp n i = Some (no_divisor_from (sint n) (sint i))"
  using assms
proof (induction "nat (46342 - sint i)" arbitrary: i rule: less_induct)
  case less
  define x where "x = sint n"
  define j where "j = sint i"
  have x: "1 < x" "x < 2 ^ 31" using less.prems sint32_bounds(2) [of n] by (simp_all add: x_def)
  have j: "2 \<le> j" "(j - 1) * (j - 1) \<le> x" using less.prems by (simp_all add: x_def j_def)
  have guard: "le_double (int_to_double i) (sqrt_double n) \<longleftrightarrow> j * j \<le> x"
    using x j by (simp add: le_sqrt_double_iff x_def j_def)
  show ?case
  proof (cases "j * j \<le> x")
    case True
    have jb: "j < 46341" using j(1) True x(2) by (intro loop_index_bound [of j x]) simp_all
    then have succ: "sint (i + 1) = j + 1" unfolding j_def by (rule sint_succ)
    obtain r where r: "c_mod n i = Some r" "r = 0 \<longleftrightarrow> j dvd x"
      using c_mod_pos [of n i] x j unfolding x_def j_def by auto
    have ih: "is_prime_loop_cpp n (i + 1) = Some (no_divisor_from x (j + 1))"
      using less.hyps [of "i + 1"] less.prems(1) True j(1) jb
      by (simp add: succ x_def flip: j_def)
    have "is_prime_loop_cpp n i = Some (\<not> j dvd x \<and> no_divisor_from x (j + 1))"
      by (subst is_prime_loop_cpp.simps) (auto simp: guard True r ih)
    also have "(\<not> j dvd x \<and> no_divisor_from x (j + 1)) = no_divisor_from x j"
      using no_divisor_from_step [of j x] True j(1) by simp
    finally show ?thesis by (simp add: x_def j_def)
  next
    case False
    then have "no_divisor_from x j" using j(1) by (intro no_divisor_from_stop) simp_all
    moreover have "is_prime_loop_cpp n i = Some True"
      by (subst is_prime_loop_cpp.simps) (simp add: guard False)
    ultimately show ?thesis by (simp add: x_def j_def)
  qed
qed


lemma is_prime_loop_c_char:
  assumes "1 < sint n" "2 \<le> sint i" "(sint i - 1) * (sint i - 1) \<le> sint n"
  shows "is_prime_loop_c n i = Some (if no_divisor_from (sint n) (sint i) then 1 else 0)"
  using assms
proof (induction "nat (46342 - sint i)" arbitrary: i rule: less_induct)
  case less
  define x where "x = sint n"
  define j where "j = sint i"
  have x: "1 < x" "x < 2 ^ 31" using less.prems sint32_bounds(2) [of n] by (simp_all add: x_def)
  have j: "2 \<le> j" "(j - 1) * (j - 1) \<le> x" using less.prems by (simp_all add: x_def j_def)
  have guard: "le_double (int_to_double i) (sqrt_double n) \<longleftrightarrow> j * j \<le> x"
    using x j by (simp add: le_sqrt_double_iff x_def j_def)
  show ?case
  proof (cases "j * j \<le> x")
    case True
    have jb: "j < 46341" using j(1) True x(2) by (intro loop_index_bound [of j x]) simp_all
    then have succ: "sint (i + 1) = j + 1" unfolding j_def by (rule sint_succ)
    obtain r where r: "c_mod n i = Some r" "r = 0 \<longleftrightarrow> j dvd x"
      using c_mod_pos [of n i] x j unfolding x_def j_def by auto
    have ih: "is_prime_loop_c n (i + 1) = Some (if no_divisor_from x (j + 1) then 1 else 0)"
      using less.hyps [of "i + 1"] less.prems(1) True j(1) jb
      by (simp add: succ x_def flip: j_def)
    have "is_prime_loop_c n i = Some (if \<not> j dvd x \<and> no_divisor_from x (j + 1) then 1 else 0)"
      by (subst is_prime_loop_c.simps) (auto simp: guard True r ih)
    also have "(\<not> j dvd x \<and> no_divisor_from x (j + 1)) = no_divisor_from x j"
      using no_divisor_from_step [of j x] True j(1) by simp
    finally show ?thesis by (simp add: x_def j_def)
  next
    case False
    then have "no_divisor_from x j" using j(1) by (intro no_divisor_from_stop) simp_all
    moreover have "is_prime_loop_c n i = Some 1"
      by (subst is_prime_loop_c.simps) (simp add: guard False)
    ultimately show ?thesis by (simp add: x_def j_def)
  qed
qed


lemma sle_one_iff: "(n :: c_int) \<le>s 1 \<longleftrightarrow> sint n \<le> 1"
  by (simp add: word_sle_eq)

lemma is_prime_cpp_eq: "is_prime_cpp n = Some (trial_prime (sint n))"
proof (cases "sint n \<le> 1")
  case True
  then show ?thesis by (simp add: is_prime_cpp_def sle_one_iff trial_prime_def)
next
  case False
  then have "is_prime_loop_cpp n 2 = Some (no_divisor_from (sint n) (sint (2 :: c_int)))"
    by (intro is_prime_loop_cpp_char) simp_all
  with False show ?thesis by (simp add: is_prime_cpp_def sle_one_iff trial_prime_def)
qed

lemma is_prime_c_eq: "is_prime_c n = Some (if trial_prime (sint n) then 1 else 0)"
proof (cases "sint n \<le> 1")
  case True
  then show ?thesis by (simp add: is_prime_c_def sle_one_iff trial_prime_def)
next
  case False
  then have "is_prime_loop_c n 2 = Some (if no_divisor_from (sint n) (sint (2 :: c_int)) then 1 else 0)"
    by (intro is_prime_loop_c_char) simp_all
  with False show ?thesis by (simp add: is_prime_c_def sle_one_iff trial_prime_def)
qed

lemma le_floor_sqrt_iff:
  assumes "0 \<le> d" "0 \<le> x"
  shows "d \<le> \<lfloor>sqrt (real_of_int x)\<rfloor> \<longleftrightarrow> d * d \<le> x"
proof -
  have "d \<le> \<lfloor>sqrt (real_of_int x)\<rfloor> \<longleftrightarrow> real_of_int d \<le> sqrt (real_of_int x)"
    by (simp add: le_floor_iff)
  also have "\<dots> \<longleftrightarrow> sqrt (real_of_int d * real_of_int d) \<le> sqrt (real_of_int x)"
    using assms(1) by simp
  also have "\<dots> \<longleftrightarrow> real_of_int (d * d) \<le> real_of_int x"
    by (simp only: real_sqrt_le_iff of_int_mult)
  also have "\<dots> \<longleftrightarrow> d * d \<le> x" by (simp only: of_int_le_iff)
  finally show ?thesis .
qed

lemma no_divisor_from_floor_sqrt:
  assumes "0 \<le> x"
  shows "no_divisor_from x 2 \<longleftrightarrow> (\<forall>d. 2 \<le> d \<and> d \<le> \<lfloor>sqrt (real_of_int x)\<rfloor> \<longrightarrow> \<not> d dvd x)"
proof -
  have "2 \<le> d \<and> d * d \<le> x \<longleftrightarrow> 2 \<le> d \<and> d \<le> \<lfloor>sqrt (real_of_int x)\<rfloor>" for d
    using le_floor_sqrt_iff [of d x] assms by auto
  then show ?thesis unfolding no_divisor_from_def by simp
qed

section \<open>The driver's loop\<close>

lemma prime_sum_empty: "b \<le> a \<Longrightarrow> prime_sum a b = 0"
  by (simp add: prime_sum_def)

lemma prime_sum_first:
  assumes "a < b"
  shows "prime_sum a b = (if trial_prime a then a else 0) + prime_sum (a + 1) b"
proof -
  let ?f = "\<lambda>p. if trial_prime p then p else 0"
  have "{a..<b} = insert a {a + 1..<b}" using assms by auto
  then have "prime_sum a b = sum ?f (insert a {a + 1..<b})" by (simp only: prime_sum_def)
  also have "\<dots> = ?f a + sum ?f {a + 1..<b}" by (rule sum.insert) simp_all
  finally show ?thesis by (simp only: prime_sum_def)
qed

lemma prime_sum_last:
  assumes "a \<le> b"
  shows "prime_sum a (b + 1) = prime_sum a b + (if trial_prime b then b else 0)"
proof -
  let ?f = "\<lambda>p. if trial_prime p then p else 0"
  have "{a..<b + 1} = insert b {a..<b}" using assms by auto
  then have "prime_sum a (b + 1) = sum ?f (insert b {a..<b})" by (simp only: prime_sum_def)
  also have "\<dots> = ?f b + sum ?f {a..<b}" by (rule sum.insert) simp_all
  finally show ?thesis by (simp only: prime_sum_def add.commute)
qed

lemma prime_sum_nonneg: "0 \<le> a \<Longrightarrow> 0 \<le> prime_sum a b"
  unfolding prime_sum_def by (intro sum_nonneg) (simp add: trial_prime_def)

lemma prime_sum_le_square:
  assumes "2 \<le> b"
  shows "prime_sum 2 b \<le> b * b"
  using assms
proof (induction b rule: int_ge_induct)
  case base
  show ?case by (simp add: prime_sum_empty)
next
  case (step b)
  have "prime_sum 2 (b + 1) \<le> prime_sum 2 b + b"
    using step.hyps by (simp add: prime_sum_last)
  also have "\<dots> \<le> b * b + b" using step.IH by simp
  also have "\<dots> \<le> (b + 1) * (b + 1)" using step.hyps by (simp add: algebra_simps)
  finally show ?case .
qed

lemma sless_million_iff: "(i :: c_int) <s 1000000 \<longleftrightarrow> sint i < 1000000"
  by (simp add: word_sless_alt)

lemma sint_succ_million:
  assumes "sint (i :: c_int) < 1000000"
  shows "sint (i + 1) = sint i + 1"
proof -
  have "sint (i + 1) = signed_take_bit 31 (sint i + 1)"
    by (simp add: sint_word_ariths)
  also have "\<dots> = sint i + 1"
    using assms sint32_bounds(1) [of i] by (intro signed_take_bit_int_eq_self) simp_all
  finally show ?thesis .
qed

lemma sum_step_cpp_eq:
  "sum_step_cpp i acc = Some (acc + word_of_int (if trial_prime (sint i) then sint i else 0))"
  by (simp add: sum_step_cpp_def is_prime_cpp_eq)

lemma sum_step_c_eq:
  "sum_step_c i acc = Some (acc + word_of_int (if trial_prime (sint i) then sint i else 0))"
  by (simp add: sum_step_c_def is_prime_c_eq)

lemma sum_loop_cpp_eq:
  assumes "sint i \<le> 1000000"
  shows "sum_loop_cpp i acc = Some (acc + word_of_int (prime_sum (sint i) 1000000))"
  using assms
proof (induction "nat (1000000 - sint i)" arbitrary: i acc rule: less_induct)
  case less
  show ?case
  proof (cases "sint i < 1000000")
    case True
    then have succ: "sint (i + 1) = sint i + 1" by (rule sint_succ_million)
    have "sum_loop_cpp (i + 1) acc' = Some (acc' + word_of_int (prime_sum (sint i + 1) 1000000))"
      for acc'
      using less.hyps [of "i + 1" acc'] True by (simp add: succ)
    then show ?thesis
      using True
      by (subst sum_loop_cpp.simps)
        (simp add: sless_million_iff sum_step_cpp_eq prime_sum_first [of "sint i"])
  next
    case False
    then show ?thesis
      by (subst sum_loop_cpp.simps) (simp add: sless_million_iff prime_sum_empty)
  qed
qed

lemma sum_loop_c_eq:
  assumes "sint i \<le> 1000000"
  shows "sum_loop_c i acc = Some (acc + word_of_int (prime_sum (sint i) 1000000))"
  using assms
proof (induction "nat (1000000 - sint i)" arbitrary: i acc rule: less_induct)
  case less
  show ?case
  proof (cases "sint i < 1000000")
    case True
    then have succ: "sint (i + 1) = sint i + 1" by (rule sint_succ_million)
    have "sum_loop_c (i + 1) acc' = Some (acc' + word_of_int (prime_sum (sint i + 1) 1000000))"
      for acc'
      using less.hyps [of "i + 1" acc'] True by (simp add: succ)
    then show ?thesis
      using True
      by (subst sum_loop_c.simps)
        (simp add: sless_million_iff sum_step_c_eq prime_sum_first [of "sint i"])
  next
    case False
    then show ?thesis
      by (subst sum_loop_c.simps) (simp add: sless_million_iff prime_sum_empty)
  qed
qed

lemma main_sum_cpp_eq: "main_sum_cpp = Some (word_of_int (prime_sum 2 1000000))"
  using sum_loop_cpp_eq [of 2 0] by (simp add: main_sum_cpp_def)

lemma main_sum_c_eq: "main_sum_c = Some (word_of_int (prime_sum 2 1000000))"
  using sum_loop_c_eq [of 2 0] by (simp add: main_sum_c_def)


lemma trial_from_eq: "0 \<le> j \<Longrightarrow> trial_from x j = no_divisor_from x j"
proof (induction x j rule: trial_from.induct)
  case (1 x j)
  show ?case
  proof (cases "j * j \<le> x")
    case True
    with "1.prems" "1.IH" show ?thesis
      by (subst trial_from.simps)
        (auto simp: no_divisor_from_step [of j x] dvd_eq_mod_eq_0)
  next
    case False
    with "1.prems" show ?thesis
      by (subst trial_from.simps) (simp add: no_divisor_from_stop)
  qed
qed

lemma trial_prime_code: "trial_prime x \<longleftrightarrow> 1 < x \<and> trial_from x 2"
  by (simp add: trial_prime_def trial_from_eq)

lemma sint_prime_sum:
  assumes "2 \<le> j" "j \<le> 1000000"
  shows "sint (word_of_int (prime_sum 2 j) :: c_long_long) = prime_sum 2 j"
proof -
  have "j * j \<le> 1000000 * 1000000" using assms by (intro mult_mono) simp_all
  with prime_sum_le_square [OF assms(1)] have hi: "prime_sum 2 j < 2 ^ 63" by simp
  have lo: "- (2 ^ 63) \<le> prime_sum 2 j" using prime_sum_nonneg [of 2 j] by simp
  have "sint (word_of_int (prime_sum 2 j) :: c_long_long) = signed_take_bit 63 (prime_sum 2 j)"
    by (simp add: sint_sbintrunc')
  also have "\<dots> = prime_sum 2 j"
    using lo hi by (intro signed_take_bit_int_eq_self) simp_all
  finally show ?thesis .
qed

lemma loop_state_cpp_inv:
  "loop_state_cpp i acc \<Longrightarrow>
     2 \<le> sint i \<and> sint i \<le> 1000000 \<and> acc = word_of_int (prime_sum 2 (sint i))"
proof (induction rule: loop_state_cpp.induct)
  case init_cpp
  show ?case by (simp add: prime_sum_empty)
next
  case (step_cpp i acc acc')
  then have lt: "sint i < 1000000" by (simp add: sless_million_iff)
  then have succ: "sint (i + 1) = sint i + 1" by (rule sint_succ_million)
  have "acc' = acc + word_of_int (if trial_prime (sint i) then sint i else 0)"
    using step_cpp.hyps(3) by (simp add: sum_step_cpp_eq)
  also have "\<dots> = word_of_int (prime_sum 2 (sint i) + (if trial_prime (sint i) then sint i else 0))"
    using step_cpp.IH by simp
  also have "\<dots> = word_of_int (prime_sum 2 (sint i + 1))"
    using step_cpp.IH by (simp only: prime_sum_last)
  finally show ?case using step_cpp.IH lt by (simp add: succ)
qed

lemma loop_state_c_inv:
  "loop_state_c i acc \<Longrightarrow>
     2 \<le> sint i \<and> sint i \<le> 1000000 \<and> acc = word_of_int (prime_sum 2 (sint i))"
proof (induction rule: loop_state_c.induct)
  case init_c
  show ?case by (simp add: prime_sum_empty)
next
  case (step_c i acc acc')
  then have lt: "sint i < 1000000" by (simp add: sless_million_iff)
  then have succ: "sint (i + 1) = sint i + 1" by (rule sint_succ_million)
  have "acc' = acc + word_of_int (if trial_prime (sint i) then sint i else 0)"
    using step_c.hyps(3) by (simp add: sum_step_c_eq)
  also have "\<dots> = word_of_int (prime_sum 2 (sint i) + (if trial_prime (sint i) then sint i else 0))"
    using step_c.IH by simp
  also have "\<dots> = word_of_int (prime_sum 2 (sint i + 1))"
    using step_c.IH by (simp only: prime_sum_last)
  finally show ?case using step_c.IH lt by (simp add: succ)
qed

lemma sint_word_of_int_small:
  assumes "0 \<le> j" "j \<le> 1000000"
  shows "sint (word_of_int j :: c_int) = j"
proof -
  have "sint (word_of_int j :: c_int) = signed_take_bit 31 j" by (simp add: sint_sbintrunc')
  also have "\<dots> = j" using assms by (intro signed_take_bit_int_eq_self) simp_all
  finally show ?thesis .
qed

lemma loop_state_cpp_reached:
  assumes "2 \<le> j" "j \<le> 1000000"
  shows "loop_state_cpp (word_of_int j) (word_of_int (prime_sum 2 j))"
  using assms
proof (induction j rule: int_ge_induct)
  case base
  show ?case using init_cpp by (simp add: prime_sum_empty)
next
  case (step j)
  then have st: "loop_state_cpp (word_of_int j) (word_of_int (prime_sum 2 j))" by simp
  have sj: "sint (word_of_int j :: c_int) = j" using step by (intro sint_word_of_int_small) simp_all
  have lt: "(word_of_int j :: c_int) <s 1000000" using step.prems by (simp add: sless_million_iff sj)
  have "sum_step_cpp (word_of_int j) (word_of_int (prime_sum 2 j)) =
      Some (word_of_int (prime_sum 2 (j + 1)))"
    using step.hyps by (simp add: sum_step_cpp_eq sj prime_sum_last)
  from step_cpp [OF st lt this] show ?case by simp
qed

lemma loop_state_c_reached:
  assumes "2 \<le> j" "j \<le> 1000000"
  shows "loop_state_c (word_of_int j) (word_of_int (prime_sum 2 j))"
  using assms
proof (induction j rule: int_ge_induct)
  case base
  show ?case using init_c by (simp add: prime_sum_empty)
next
  case (step j)
  then have st: "loop_state_c (word_of_int j) (word_of_int (prime_sum 2 j))" by simp
  have sj: "sint (word_of_int j :: c_int) = j" using step by (intro sint_word_of_int_small) simp_all
  have lt: "(word_of_int j :: c_int) <s 1000000" using step.prems by (simp add: sless_million_iff sj)
  have "sum_step_c (word_of_int j) (word_of_int (prime_sum 2 j)) =
      Some (word_of_int (prime_sum 2 (j + 1)))"
    using step.hyps by (simp add: sum_step_c_eq sj prime_sum_last)
  from step_c [OF st lt this] show ?case by simp
qed

lemma loop_state_cpp_run: "loop_state_cpp i acc \<Longrightarrow> sum_loop_cpp i acc = main_sum_cpp"
proof -
  assume "loop_state_cpp i acc"
  from loop_state_cpp_inv [OF this]
  have i: "2 \<le> sint i" "sint i \<le> 1000000" and acc: "acc = word_of_int (prime_sum 2 (sint i))"
    by simp_all
  have "prime_sum 2 1000000 = prime_sum 2 (sint i) + prime_sum (sint i) 1000000"
    unfolding prime_sum_def using i
    by (subst sum.union_disjoint [symmetric]) (auto intro!: arg_cong2 [where f = sum])
  then show ?thesis
    using i by (simp add: sum_loop_cpp_eq main_sum_cpp_eq acc)
qed

section \<open>The primality test: results\<close>


text \<open>
  Claim C3. For every \<^verbatim>\<open>int\<close> \<open>n \<le> 1\<close> (negative, 0 or 1) the primality test returns
  false, in the C++ program (\<open>false\<close>) and in the C program (\<open>0\<close>).
\<close>

theorem is_prime_le_one:
  "n \<le>s 1 \<Longrightarrow> is_prime_cpp n = Some False \<and> is_prime_c n = Some 0"
  by (simp add: is_prime_cpp_def is_prime_c_def)

theorem is_prime_le_one_witness:
  "(- 7 :: c_int) \<le>s 1 \<and> is_prime_cpp (- 7) = Some False \<and> is_prime_c (- 7) = Some 0"
proof -
  have h: "(- 7 :: c_int) \<le>s 1" by (simp add: word_sle_eq)
  show ?thesis using h is_prime_le_one [OF h] by simp
qed

text \<open>
  Claim C2. For every \<^verbatim>\<open>int\<close> \<open>n > 1\<close> the primality test returns, and it returns true
  exactly when no integer \<open>i\<close> with \<open>2 \<le> i \<le> floor (sqrt n)\<close> divides \<open>n\<close>; here \<open>sqrt\<close>
  is the square root of the real numbers.
\<close>

theorem is_prime_iff_no_divisor:
  "1 <s n \<Longrightarrow>
     is_prime_cpp n = Some (\<forall>i. 2 \<le> i \<and> i \<le> \<lfloor>sqrt (real_of_int (sint n))\<rfloor> \<longrightarrow> \<not> i dvd sint n) \<and>
     is_prime_c n =
       Some (if (\<forall>i. 2 \<le> i \<and> i \<le> \<lfloor>sqrt (real_of_int (sint n))\<rfloor> \<longrightarrow> \<not> i dvd sint n) then 1 else 0)"
proof -
  assume "1 <s n"
  then have n: "1 < sint n" by (simp add: word_sless_alt)
  then have "trial_prime (sint n) \<longleftrightarrow>
      (\<forall>i. 2 \<le> i \<and> i \<le> \<lfloor>sqrt (real_of_int (sint n))\<rfloor> \<longrightarrow> \<not> i dvd sint n)"
    using no_divisor_from_floor_sqrt [of "sint n"] by (simp add: trial_prime_def)
  then show ?thesis by (simp add: is_prime_cpp_eq is_prime_c_eq)
qed

theorem is_prime_iff_no_divisor_witness:
  "1 <s (35 :: c_int) \<and> \<lfloor>sqrt (real_of_int (sint (35 :: c_int)))\<rfloor> = 5 \<and> (5 :: int) dvd 35 \<and>
   is_prime_cpp 35 = Some False \<and> is_prime_c 35 = Some 0"
proof -
  have h: "1 <s (35 :: c_int)" by (simp add: word_sless_alt)
  have fl: "\<lfloor>sqrt (real_of_int (sint (35 :: c_int)))\<rfloor> = 5"
    by (rule floor_unique) (simp_all add: real_le_rsqrt real_less_lsqrt power2_eq_square)
  have "\<not> (\<forall>i :: int. 2 \<le> i \<and> i \<le> 5 \<longrightarrow> \<not> i dvd 35)"
    by (simp add: exI [of _ 5])
  then show ?thesis using h fl is_prime_iff_no_divisor [OF h] by simp
qed

text \<open>
  Claim C4. The perfect square \<open>961 = 31 * 31\<close> is classified as composite by both
  programs, although the loop bound is the floating-point \<^verbatim>\<open>sqrt(n)\<close>: the square root of
  \<open>961\<close> is computed as exactly \<open>31\<close>, so the divisor \<open>31\<close> is still tried.
\<close>

theorem is_prime_961:
  "sqrt_double 961 = Dbl 31 \<and> le_double (int_to_double 31) (sqrt_double 961) \<and>
   is_prime_cpp 961 = Some False \<and> is_prime_c 961 = Some 0"
proof -
  have sq: "sqrt_double 961 = Dbl 31" by code_simp
  have "\<not> trial_prime 961"
    unfolding trial_prime_def no_divisor_from_def by (simp add: exI [of _ 31])
  then show ?thesis
    using is_prime_cpp_eq [of 961] is_prime_c_eq [of 961] by (simp add: sq int_to_double_def)
qed

text \<open>
  Claim C10. The primality test terminates on every \<^verbatim>\<open>int\<close> input: in both programs
  it returns a value for every \<open>n\<close> (the loop index rises from 2 and stops above the
  square root), so \<^verbatim>\<open>is_prime\<close> is a total function.
\<close>

theorem is_prime_terminates:
  "(\<exists>b. is_prime_cpp n = Some b) \<and> (\<exists>r. is_prime_c n = Some r)"
  by (simp add: is_prime_cpp_eq is_prime_c_eq)

section \<open>The driver and the output: results\<close>

lemma digit_char_digit: "digit_char d \<in> set ''0123456789''"
  unfolding digit_char_def by (rule nth_mem) simp

lemma trial_prime_999983: "trial_prime 999983"
  unfolding trial_prime_code by code_simp

lemma not_trial_prime_999999: "\<not> trial_prime 999999"
  unfolding trial_prime_def no_divisor_from_def by (simp add: exI [of _ 3])

lemma sle_long_iff: "(a :: c_long_long) \<le>s b \<longleftrightarrow> sint a \<le> sint b"
  by (simp add: word_sle_eq)

lemma prime_sum_mono: "0 \<le> b \<Longrightarrow> prime_sum a b \<le> prime_sum a (b + 1)"
proof (cases "a \<le> b")
  case True
  assume "0 \<le> b"
  with True show ?thesis by (simp add: prime_sum_last)
next
  case False
  then show ?thesis by (simp add: prime_sum_empty)
qed

lemma step_from_state:
  fixes i :: c_int and acc :: c_long_long
  assumes "2 \<le> sint i" "sint i < 1000000" "acc = word_of_int (prime_sum 2 (sint i))"
  shows "sint acc = prime_sum 2 (sint i)"
    and "sint (acc + word_of_int (if trial_prime (sint i) then sint i else 0)) =
      sint acc + (if trial_prime (sint i) then sint i else 0)"
proof -
  define j where "j = sint i"
  have j: "2 \<le> j" "j \<le> 1000000" "2 \<le> j + 1" "j + 1 \<le> 1000000"
    using assms(1,2) by (simp_all add: j_def)
  show a: "sint acc = prime_sum 2 (sint i)"
    unfolding assms(3) using sint_prime_sum [OF j(1,2)] by (simp only: j_def)
  have "acc + word_of_int (if trial_prime j then j else 0) = word_of_int (prime_sum 2 (j + 1))"
    using j(1) by (simp add: assms(3) prime_sum_last j_def)
  then have "sint (acc + word_of_int (if trial_prime j then j else 0)) = prime_sum 2 (j + 1)"
    using sint_prime_sum [OF j(3,4)] by simp
  also have "\<dots> = sint acc + (if trial_prime j then j else 0)"
    using j(1) by (simp only: a prime_sum_last j_def)
  finally show "sint (acc + word_of_int (if trial_prime (sint i) then sint i else 0)) =
      sint acc + (if trial_prime (sint i) then sint i else 0)"
    by (simp only: j_def)
qed

lemma step_monotone:
  fixes i :: c_int and acc :: c_long_long
  assumes "2 \<le> sint i \<and> sint i \<le> 1000000 \<and> acc = word_of_int (prime_sum 2 (sint i))"
    and "i <s 1000000"
  shows "acc \<le>s acc + word_of_int (if trial_prime (sint i) then sint i else 0)"
proof -
  have lt: "sint i < 1000000" using assms(2) by (simp only: sless_million_iff)
  have i: "2 \<le> sint i" and acc: "acc = word_of_int (prime_sum 2 (sint i))"
    using assms(1) by blast+
  have "0 \<le> (if trial_prime (sint i) then sint i else 0)" using i by simp
  then have "sint acc \<le> sint acc + (if trial_prime (sint i) then sint i else 0)" by linarith
  also have "\<dots> = sint (acc + word_of_int (if trial_prime (sint i) then sint i else 0))"
    by (rule step_from_state(2) [OF i lt acc, symmetric])
  finally show ?thesis by (simp only: sle_long_iff)
qed

text \<open>
  Claim C7. The accumulator never decreases across the driver's loop: the loop starts with
  \<open>sum = 0\<close>, and from every state the loop reaches with \<open>i < 1000000\<close> the iteration
  returns an accumulator that is at least (as signed 64-bit values) the one before.
\<close>

theorem accumulator_monotone:
  "loop_state_cpp 2 0 \<and> loop_state_c 2 0 \<and>
   (loop_state_cpp i acc \<and> i <s 1000000 \<longrightarrow>
      (\<exists>acc'. sum_step_cpp i acc = Some acc' \<and> acc \<le>s acc')) \<and>
   (loop_state_c i acc \<and> i <s 1000000 \<longrightarrow>
      (\<exists>acc'. sum_step_c i acc = Some acc' \<and> acc \<le>s acc'))"
proof (intro conjI impI)
  show "loop_state_cpp 2 0" by (rule init_cpp)
  show "loop_state_c 2 0" by (rule init_c)
next
  assume a: "loop_state_cpp i acc \<and> i <s 1000000"
  then have "acc \<le>s acc + word_of_int (if trial_prime (sint i) then sint i else 0)"
    using loop_state_cpp_inv [of i acc] by (intro step_monotone) blast+
  then show "\<exists>acc'. sum_step_cpp i acc = Some acc' \<and> acc \<le>s acc'"
    by (simp only: sum_step_cpp_eq) blast
next
  assume a: "loop_state_c i acc \<and> i <s 1000000"
  then have "acc \<le>s acc + word_of_int (if trial_prime (sint i) then sint i else 0)"
    using loop_state_c_inv [of i acc] by (intro step_monotone) blast+
  then show "\<exists>acc'. sum_step_c i acc = Some acc' \<and> acc \<le>s acc'"
    by (simp only: sum_step_c_eq) blast
qed

theorem accumulator_monotone_witness:
  "loop_state_cpp 2 0 \<and> (2 :: c_int) <s 1000000 \<and>
   (\<exists>acc'. sum_step_cpp 2 0 = Some acc' \<and> 0 \<le>s acc') \<and>
   loop_state_c 2 0 \<and> (\<exists>acc'. sum_step_c 2 0 = Some acc' \<and> 0 \<le>s acc')"
proof -
  have h: "(2 :: c_int) <s 1000000" by (simp add: sless_million_iff)
  show ?thesis using h accumulator_monotone [of 2 0] by blast
qed

lemma prime_sum_split:
  assumes "a \<le> b" "b \<le> c"
  shows "prime_sum a c = prime_sum a b + prime_sum b c"
proof -
  have "{a..<c} = {a..<b} \<union> {b..<c}" using assms by auto
  moreover have "{a..<b} \<inter> {b..<c} = {}" by auto
  ultimately show ?thesis
    unfolding prime_sum_def by (simp add: sum.union_disjoint)
qed

lemma loop_state_c_run: "loop_state_c i acc \<Longrightarrow> sum_loop_c i acc = main_sum_c"
proof -
  assume "loop_state_c i acc"
  from loop_state_c_inv [OF this]
  have i: "2 \<le> sint i" "sint i \<le> 1000000" and acc: "acc = word_of_int (prime_sum 2 (sint i))"
    by simp_all
  have "prime_sum 2 1000000 = prime_sum 2 (sint i) + prime_sum (sint i) 1000000"
    using i by (intro prime_sum_split) simp_all
  then show ?thesis
    using i by (simp add: sum_loop_c_eq main_sum_c_eq acc)
qed

lemma divisor_not_trial_prime:
  "2 \<le> d \<Longrightarrow> d * d \<le> n \<Longrightarrow> d dvd n \<Longrightarrow> \<not> trial_prime n"
  unfolding trial_prime_def no_divisor_from_def by blast

lemma composite_tail:
  "\<not> trial_prime 999984" "\<not> trial_prime 999985" "\<not> trial_prime 999986" "\<not> trial_prime 999987"
  "\<not> trial_prime 999988" "\<not> trial_prime 999989" "\<not> trial_prime 999990" "\<not> trial_prime 999991"
  "\<not> trial_prime 999992" "\<not> trial_prime 999993" "\<not> trial_prime 999994" "\<not> trial_prime 999995"
  "\<not> trial_prime 999996" "\<not> trial_prime 999997" "\<not> trial_prime 999998"
proof -
  show "\<not> trial_prime 999984" by (rule divisor_not_trial_prime [of 2]) simp_all
  show "\<not> trial_prime 999985" by (rule divisor_not_trial_prime [of 5]) simp_all
  show "\<not> trial_prime 999986" by (rule divisor_not_trial_prime [of 2]) simp_all
  show "\<not> trial_prime 999987" by (rule divisor_not_trial_prime [of 3]) simp_all
  show "\<not> trial_prime 999988" by (rule divisor_not_trial_prime [of 2]) simp_all
  show "\<not> trial_prime 999989" by (rule divisor_not_trial_prime [of 19]) simp_all
  show "\<not> trial_prime 999990" by (rule divisor_not_trial_prime [of 2]) simp_all
  show "\<not> trial_prime 999991" by (rule divisor_not_trial_prime [of 17]) simp_all
  show "\<not> trial_prime 999992" by (rule divisor_not_trial_prime [of 2]) simp_all
  show "\<not> trial_prime 999993" by (rule divisor_not_trial_prime [of 3]) simp_all
  show "\<not> trial_prime 999994" by (rule divisor_not_trial_prime [of 2]) simp_all
  show "\<not> trial_prime 999995" by (rule divisor_not_trial_prime [of 5]) simp_all
  show "\<not> trial_prime 999996" by (rule divisor_not_trial_prime [of 2]) simp_all
  show "\<not> trial_prime 999997" by (rule divisor_not_trial_prime [of 757]) simp_all
  show "\<not> trial_prime 999998" by (rule divisor_not_trial_prime [of 2]) simp_all
qed

lemma prime_sum_999999: "prime_sum 999999 1000000 = 0"
  using prime_sum_first [of 999999 1000000]
  by (simp add: not_trial_prime_999999 prime_sum_empty)

lemma prime_sum_tail: "prime_sum 999984 1000000 = 0"
proof -
  have step: "\<not> trial_prime a \<Longrightarrow> a < 1000000 \<Longrightarrow> prime_sum (a + 1) 1000000 = 0 \<Longrightarrow>
      prime_sum a 1000000 = 0" for a
    by (simp add: prime_sum_first)
  note ps = prime_sum_999999
  have "prime_sum 999998 1000000 = 0" using step [OF composite_tail(15)] ps by simp
  then have "prime_sum 999997 1000000 = 0" using step [OF composite_tail(14)] by simp
  then have "prime_sum 999996 1000000 = 0" using step [OF composite_tail(13)] by simp
  then have "prime_sum 999995 1000000 = 0" using step [OF composite_tail(12)] by simp
  then have "prime_sum 999994 1000000 = 0" using step [OF composite_tail(11)] by simp
  then have "prime_sum 999993 1000000 = 0" using step [OF composite_tail(10)] by simp
  then have "prime_sum 999992 1000000 = 0" using step [OF composite_tail(9)] by simp
  then have "prime_sum 999991 1000000 = 0" using step [OF composite_tail(8)] by simp
  then have "prime_sum 999990 1000000 = 0" using step [OF composite_tail(7)] by simp
  then have "prime_sum 999989 1000000 = 0" using step [OF composite_tail(6)] by simp
  then have "prime_sum 999988 1000000 = 0" using step [OF composite_tail(5)] by simp
  then have "prime_sum 999987 1000000 = 0" using step [OF composite_tail(4)] by simp
  then have "prime_sum 999986 1000000 = 0" using step [OF composite_tail(3)] by simp
  then have "prime_sum 999985 1000000 = 0" using step [OF composite_tail(2)] by simp
  then show "prime_sum 999984 1000000 = 0" using step [OF composite_tail(1)] by simp
qed

lemma prime_sum_999983: "prime_sum 999983 1000000 = 999983"
  using prime_sum_first [of 999983 1000000]
  by (simp add: trial_prime_999983 prime_sum_tail)

text \<open>
  Claim C5. In the summation over \<open>[2, 1000000)\<close> the composite candidate \<open>999999\<close> is
  rejected by the primality test and contributes nothing: its iteration leaves the sum
  as it is, and the driver's loop standing at \<open>999999\<close> returns the accumulator it holds.
  The candidate \<open>999983\<close> lies in the iterated range and is accepted; its iteration adds
  \<open>999983\<close>, the driver's loop standing at \<open>999983\<close> returns its accumulator plus
  \<open>999983\<close>, and the final sum of the driver is the sum it holds on reaching \<open>999983\<close>
  plus \<open>999983\<close>.
\<close>

theorem boundary_candidates:
  "is_prime_cpp 999999 = Some False \<and> is_prime_c 999999 = Some 0 \<and>
   sum_step_cpp 999999 acc = Some acc \<and> sum_step_c 999999 acc = Some acc \<and>
   (\<exists>a. loop_state_cpp 999999 a \<and> loop_state_cpp 1000000 a) \<and>
   (\<exists>a. loop_state_c 999999 a \<and> loop_state_c 1000000 a) \<and>
   is_prime_cpp 999983 = Some True \<and> is_prime_c 999983 = Some 1 \<and>
   2 \<le>s (999983 :: c_int) \<and> (999983 :: c_int) <s 1000000 \<and>
   sum_step_cpp 999983 acc = Some (acc + 999983) \<and>
   sum_step_c 999983 acc = Some (acc + 999983) \<and>
   (\<exists>a. loop_state_cpp 999983 a \<and> loop_state_cpp 999984 (a + 999983)) \<and>
   (\<exists>a. loop_state_c 999983 a \<and> loop_state_c 999984 (a + 999983)) \<and>
   sum_loop_cpp 999999 acc = Some acc \<and> sum_loop_c 999999 acc = Some acc \<and>
   sum_loop_cpp 999983 acc = Some (acc + 999983) \<and>
   sum_loop_c 999983 acc = Some (acc + 999983) \<and>
   (\<exists>a. loop_state_cpp 999983 a \<and> sum_loop_cpp 2 0 = sum_loop_cpp 999983 a \<and>
        main_sum_cpp = Some (a + 999983)) \<and>
   (\<exists>a. loop_state_c 999983 a \<and> sum_loop_c 2 0 = sum_loop_c 999983 a \<and>
        main_sum_c = Some (a + 999983))"
proof -
  note tp = trial_prime_999983 not_trial_prime_999999
  have s1: "sum_step_cpp 999999 a = Some a" "sum_step_c 999999 a = Some a"
    "sum_step_cpp 999983 a = Some (a + 999983)" "sum_step_c 999983 a = Some (a + 999983)" for a
    by (simp_all add: sum_step_cpp_eq sum_step_c_eq tp)
  have lt: "(999999 :: c_int) <s 1000000" "(999983 :: c_int) <s 1000000" "2 \<le>s (999983 :: c_int)"
    by (simp_all add: word_sless_alt word_sle_eq)
  have r1: "loop_state_cpp 999999 (word_of_int (prime_sum 2 999999))"
    using loop_state_cpp_reached [of 999999] by simp
  have r2: "loop_state_cpp 999983 (word_of_int (prime_sum 2 999983))"
    using loop_state_cpp_reached [of 999983] by simp
  have r3: "loop_state_c 999999 (word_of_int (prime_sum 2 999999))"
    using loop_state_c_reached [of 999999] by simp
  have r4: "loop_state_c 999983 (word_of_int (prime_sum 2 999983))"
    using loop_state_c_reached [of 999983] by simp
  have e1: "\<exists>a. loop_state_cpp 999999 a \<and> loop_state_cpp 1000000 a"
    using r1 step_cpp [OF r1 lt(1) s1(1)] by auto
  have e2: "\<exists>a. loop_state_c 999999 a \<and> loop_state_c 1000000 a"
    using r3 step_c [OF r3 lt(1) s1(2)] by auto
  have e3: "\<exists>a. loop_state_cpp 999983 a \<and> loop_state_cpp 999984 (a + 999983)"
    using r2 step_cpp [OF r2 lt(2) s1(3)] by auto
  have e4: "\<exists>a. loop_state_c 999983 a \<and> loop_state_c 999984 (a + 999983)"
    using r4 step_c [OF r4 lt(2) s1(4)] by auto
  have l1: "sum_loop_cpp 999999 a = Some a" "sum_loop_c 999999 a = Some a" for a
    using sum_loop_cpp_eq [of 999999 a] sum_loop_c_eq [of 999999 a]
    by (simp_all add: prime_sum_999999)
  have l2: "sum_loop_cpp 999983 a = Some (a + 999983)"
    "sum_loop_c 999983 a = Some (a + 999983)" for a
    using sum_loop_cpp_eq [of 999983 a] sum_loop_c_eq [of 999983 a]
    by (simp_all add: prime_sum_999983)
  have m1: "\<exists>a. loop_state_cpp 999983 a \<and> sum_loop_cpp 2 0 = sum_loop_cpp 999983 a \<and>
      main_sum_cpp = Some (a + 999983)"
    using r2 loop_state_cpp_run [OF r2] l2(1) by (auto simp: main_sum_cpp_def)
  have m2: "\<exists>a. loop_state_c 999983 a \<and> sum_loop_c 2 0 = sum_loop_c 999983 a \<and>
      main_sum_c = Some (a + 999983)"
    using r4 loop_state_c_run [OF r4] l2(2) by (auto simp: main_sum_c_def)
  have p: "is_prime_cpp 999999 = Some False" "is_prime_c 999999 = Some 0"
    "is_prime_cpp 999983 = Some True" "is_prime_c 999983 = Some 1"
    by (simp_all add: is_prime_cpp_eq is_prime_c_eq tp)
  show ?thesis
    by (intro conjI p s1 lt e1 e2 e3 e4 l1 l2 m1 m2)
qed

text \<open>
  Claim C8. The C program and the C++ program compute the same result: for every
  \<^verbatim>\<open>int\<close> \<open>n\<close> both primality tests return, the C one \<open>1\<close> where the C++ one returns
  \<open>true\<close> and \<open>0\<close> where it returns \<open>false\<close>; both drivers return the same final sum; and
  the printed \<open>Sum:\<close> line is the same, whatever the two elapsed times are.
\<close>

theorem c_cpp_agree:
  "is_prime_c n = map_option (\<lambda>b. if b then 1 else 0) (is_prime_cpp n) \<and>
   is_prime_cpp n \<noteq> None \<and>
   main_sum_c = main_sum_cpp \<and> main_sum_cpp \<noteq> None \<and>
   map_option hd (main_c t) = map_option hd (main_cpp t') \<and> main_cpp t' \<noteq> None"
  by (simp add: is_prime_cpp_eq is_prime_c_eq main_sum_c_eq main_sum_cpp_eq
      main_c_def main_cpp_def sum_line_c_def sum_line_cpp_def)

text \<open>
  Claim C6. The second output line is \<open>Time: <value> seconds\<close> with the elapsed time
  printed with exactly two decimal places. The C program does so for every elapsed
  time; the C++ program prints the elapsed time with the stream's default format (up
  to six significant digits, trailing zeros removed): half a second is printed as
  \<open>0.5\<close>, and \<open>0.4375\<close> seconds with four decimal places.
\<close>

theorem time_line_format:
  "(\<exists>ip d1 d2. time_line_c t = ''Time: '' @ ip @ ''.'' @ [d1, d2] @ '' seconds'' \<and> ip \<noteq> [] \<and>
      d1 \<in> set ''0123456789'' \<and> d2 \<in> set ''0123456789'') \<and>
   time_line_c (1 / 2) = ''Time: 0.50 seconds'' \<and>
   time_line_cpp (1 / 2) = ''Time: 0.5 seconds'' \<and>
   time_line_cpp (7 / 16) = ''Time: 0.4375 seconds''"
proof -
  define h where "h = round_half_even (\<bar>t\<bar> * 100)"
  have ne: "digits k \<noteq> []" for k
    by (subst digits.simps) simp
  have "time_line_c t = ''Time: '' @ ((if t < 0 then ''-'' else []) @ digits (h div 100)) @ ''.'' @
      [digit_char (nat (h mod 100 div 10)), digit_char (nat (h mod 10))] @ '' seconds''"
    by (simp add: time_line_c_def printf_2f_def Let_def h_def)
  moreover have "(if t < 0 then ''-'' else []) @ digits (h div 100) \<noteq> []"
    using ne by simp
  ultimately have gen: "\<exists>ip d1 d2. time_line_c t = ''Time: '' @ ip @ ''.'' @ [d1, d2] @ '' seconds'' \<and>
      ip \<noteq> [] \<and> d1 \<in> set ''0123456789'' \<and> d2 \<in> set ''0123456789''"
    using digit_char_digit by blast
  have c1: "time_line_c (1 / 2) = ''Time: 0.50 seconds''" by code_simp
  have c2: "time_line_cpp (1 / 2) = ''Time: 0.5 seconds''" by code_simp
  have c3: "time_line_cpp (7 / 16) = ''Time: 0.4375 seconds''" by code_simp
  show ?thesis using gen c1 c2 c3 by blast
qed

section \<open>The sieve computes the sum of the accepted candidates\<close>

lemma unsieved_rough: "q < n \<Longrightarrow> unsieved q n \<longleftrightarrow> 2 \<le> n \<and> rough q n"
  unfolding unsieved_def rough_def by auto

lemma unsieved_mono: "unsieved q n \<Longrightarrow> q' \<le> q \<Longrightarrow> unsieved q' n"
  unfolding unsieved_def by auto

lemma unsieved_below: "n \<le> q \<Longrightarrow> unsieved q n \<longleftrightarrow> unsieved (n - 1) n"
  unfolding unsieved_def by auto

lemma dvd_imp_le_pos: "d dvd n \<Longrightarrow> 0 < n \<Longrightarrow> d \<le> (n :: int)"
  by (rule zdvd_imp_le)

text \<open>Trial division up to the square root and the sieve agree.\<close>

lemma trial_prime_unsieved:
  assumes "trial_prime n"
  shows "unsieved q n"
  unfolding unsieved_def
proof (intro conjI allI impI)
  show "2 \<le> n" using assms by (simp add: trial_prime_def)
next
  fix d assume d: "2 \<le> d \<and> d \<le> q \<and> d < n"
  show "\<not> d dvd n"
  proof
    assume "d dvd n"
    then obtain e where e: "n = d * e" by (auto simp: dvd_def)
    have n: "1 < n" and nd: "\<And>k. 2 \<le> k \<Longrightarrow> k * k \<le> n \<Longrightarrow> \<not> k dvd n"
      using assms by (auto simp: trial_prime_def no_divisor_from_def)
    have e2: "2 \<le> e"
    proof (rule ccontr)
      assume "\<not> 2 \<le> e"
      then have "e \<le> 1" by simp
      then have "d * e \<le> d * 1" using d by (intro mult_left_mono) simp_all
      with e d show False by simp
    qed
    show False
    proof (cases "d \<le> e")
      case True
      then have "d * d \<le> d * e" using d by (intro mult_left_mono) simp_all
      with nd [of d] d e \<open>d dvd n\<close> show False by simp
    next
      case False
      then have "e * e \<le> d * e" using e2 by (intro mult_right_mono) simp_all
      moreover have "e dvd n" by (simp add: e)
      ultimately show False using nd [of e] e2 e by simp
    qed
  qed
qed

lemma unsieved_trial_prime:
  assumes "unsieved q n" "n < (q + 1) * (q + 1)" "0 \<le> q"
  shows "trial_prime n"
  unfolding trial_prime_def no_divisor_from_def
proof (intro conjI allI impI)
  show n: "1 < n" using assms(1) by (simp add: unsieved_def)
  fix d assume d: "2 \<le> d \<and> d * d \<le> n"
  have "d \<le> q"
  proof (rule ccontr)
    assume "\<not> d \<le> q"
    then have "q + 1 \<le> d" by simp
    moreover have "0 \<le> q + 1" using assms(3) by simp
    ultimately have "(q + 1) * (q + 1) \<le> d * d" by (intro mult_mono) simp_all
    with d assms(2) show False by simp
  qed
  moreover have "d < n"
  proof -
    have "d * 2 \<le> d * d" using d by (intro mult_left_mono) simp_all
    with d show ?thesis by linarith
  qed
  ultimately show "\<not> d dvd n" using assms(1) d by (simp add: unsieved_def)
qed

lemma unsieved_iff_trial_prime:
  "n < (q + 1) * (q + 1) \<Longrightarrow> 0 \<le> q \<Longrightarrow> unsieved q n \<longleftrightarrow> trial_prime n"
  using trial_prime_unsieved [of n q] unsieved_trial_prime [of q n] by blast

lemma sieve_sum_prime_sum:
  assumes "v < (q + 1) * (q + 1)" "0 \<le> q"
  shows "sieve_sum q v = prime_sum 2 (v + 1)"
proof -
  have "sieve_sum q v = (\<Sum>n \<in> {2..v}. if trial_prime n then n else 0)"
    unfolding sieve_sum_def
  proof (rule sum.cong)
    fix n assume "n \<in> {2..v}"
    then have "n < (q + 1) * (q + 1)" using assms(1) by simp
    then show "(if unsieved q n then n else 0) = (if trial_prime n then n else 0)"
      using assms(2) by (simp add: unsieved_iff_trial_prime)
  qed simp
  moreover have "{2..v} = {2..<v + 1}" by auto
  ultimately show ?thesis by (simp only: prime_sum_def)
qed

lemma sum_from_two: "1 \<le> v \<Longrightarrow> (\<Sum>n \<in> {2..v}. n) = tri v"
proof (induction v rule: int_ge_induct)
  case base
  show ?case by (simp add: tri_def)
next
  case (step v)
  have "{2..v + 1} = insert (v + 1) {2..v}" using step.hyps by auto
  then have "(\<Sum>n \<in> {2..v + 1}. n) = (v + 1) + (\<Sum>n \<in> {2..v}. n)" by simp
  also have "\<dots> = (v + 1) + tri v" by (simp only: step.IH)
  also have "\<dots> = tri (v + 1)"
  proof -
    have "(v + 1) * (v + 1 + 1) = v * (v + 1) + (v + 1) * 2" by (simp add: algebra_simps)
    then have "(v + 1) * (v + 1 + 1) div 2 = v * (v + 1) div 2 + (v + 1)" by simp
    then show ?thesis by (simp add: tri_def)
  qed
  finally show ?case .
qed

lemma sieve_sum_base:
  assumes "q < 2" "1 \<le> v"
  shows "sieve_sum q v = tri v"
proof -
  have "sieve_sum q v = (\<Sum>n \<in> {2..v}. n)"
    unfolding sieve_sum_def using assms(1) by (intro sum.cong) (auto simp: unsieved_def)
  then show ?thesis using assms(2) by (simp add: sum_from_two)
qed

lemma unsieved_composite:
  assumes "2 \<le> q" "\<not> unsieved (q - 1) q"
  shows "unsieved q n \<longleftrightarrow> unsieved (q - 1) n"
proof
  assume "unsieved q n"
  then show "unsieved (q - 1) n" by (rule unsieved_mono) simp
next
  assume u: "unsieved (q - 1) n"
  obtain d' where d': "2 \<le> d'" "d' \<le> q - 1" "d' dvd q"
    using assms by (auto simp: unsieved_def)
  show "unsieved q n"
    unfolding unsieved_def
  proof (intro conjI allI impI)
    show "2 \<le> n" using u by (simp add: unsieved_def)
    fix d assume d: "2 \<le> d \<and> d \<le> q \<and> d < n"
    show "\<not> d dvd n"
    proof (cases "d = q")
      case True
      show ?thesis
      proof
        assume "d dvd n"
        then have "d' dvd n" using d'(3) True by (metis dvd_trans)
        moreover have "d' < n" using d'(2) d True by simp
        ultimately show False using u d'(1,2) by (simp add: unsieved_def)
      qed
    next
      case False
      with d u show ?thesis by (simp add: unsieved_def)
    qed
  qed
qed

lemma unsieved_small:
  assumes "2 \<le> q" "n < q * q"
  shows "unsieved q n \<longleftrightarrow> unsieved (q - 1) n"
proof
  assume "unsieved q n"
  then show "unsieved (q - 1) n" by (rule unsieved_mono) simp
next
  assume u: "unsieved (q - 1) n"
  show "unsieved q n"
    unfolding unsieved_def
  proof (intro conjI allI impI)
    show "2 \<le> n" using u by (simp add: unsieved_def)
    fix d assume d: "2 \<le> d \<and> d \<le> q \<and> d < n"
    show "\<not> d dvd n"
    proof (cases "d = q")
      case True
      show ?thesis
      proof
        assume "d dvd n"
        then obtain e where e: "n = q * e" using True by (auto simp: dvd_def)
        have "e < q"
        proof (rule ccontr)
          assume "\<not> e < q"
          then have "q * q \<le> q * e" using assms(1) by (intro mult_left_mono) simp_all
          with e assms(2) show False by simp
        qed
        moreover have "2 \<le> e"
        proof (rule ccontr)
          assume "\<not> 2 \<le> e"
          then have "q * e \<le> q * 1" using assms(1) by (intro mult_left_mono) simp_all
          with e d True show False by simp
        qed
        moreover have "e dvd n" by (simp add: e)
        moreover have "e < n"
        proof -
          have "2 * e \<le> q * e" using assms(1) \<open>2 \<le> e\<close> by (intro mult_right_mono) simp_all
          with e \<open>2 \<le> e\<close> show ?thesis by linarith
        qed
        ultimately show False using u by (simp add: unsieved_def)
      qed
    next
      case False
      with d u show ?thesis by (simp add: unsieved_def)
    qed
  qed
qed

lemma sieve_sum_composite:
  "2 \<le> q \<Longrightarrow> \<not> unsieved (q - 1) q \<Longrightarrow> sieve_sum q v = sieve_sum (q - 1) v"
  unfolding sieve_sum_def by (simp add: unsieved_composite)

lemma sieve_sum_small:
  assumes "2 \<le> q" "v < q * q"
  shows "sieve_sum q v = sieve_sum (q - 1) v"
  unfolding sieve_sum_def
proof (rule sum.cong)
  fix n assume "n \<in> {2..v}"
  then have "n < q * q" using assms(2) by simp
  then show "(if unsieved q n then n else 0) = (if unsieved (q - 1) n then n else 0)"
    using assms(1) by (simp add: unsieved_small)
qed simp

lemma rough_mult:
  assumes "2 \<le> p" "rough (p - 1) p"
  shows "rough (p - 1) (p * m) \<longleftrightarrow> rough (p - 1) m"
proof
  assume "rough (p - 1) (p * m)"
  then show "rough (p - 1) m" unfolding rough_def by (meson dvd_mult)
next
  assume r: "rough (p - 1) m"
  show "rough (p - 1) (p * m)"
    unfolding rough_def
  proof (intro allI impI)
    fix d assume d: "2 \<le> d \<and> d \<le> p - 1"
    show "\<not> d dvd p * m"
    proof
      assume dv: "d dvd p * m"
      define g where "g = gcd d p"
      have g: "g dvd d" "g dvd p" "0 \<le> g" by (simp_all add: g_def)
      have "g \<le> d" using d by (simp add: g_def)
      with d have "g \<le> p - 1" by simp
      have "g \<noteq> 0" using d by (auto simp: g_def)
      have "g < 2"
      proof (rule ccontr)
        assume "\<not> g < 2"
        with \<open>g \<le> p - 1\<close> g(2) assms(2) show False by (simp add: rough_def)
      qed
      with g(3) \<open>g \<noteq> 0\<close> have "g = 1" by simp
      then have "coprime d p" by (simp add: g_def coprime_iff_gcd_eq_1)
      then have "d dvd m" using dv by (simp add: coprime_dvd_mult_right_iff)
      with r d show False by (simp add: rough_def)
    qed
  qed
qed

lemma rough_sum:
  assumes "2 \<le> p" "p - 1 \<le> u"
  shows "(\<Sum>m \<in> {2..u}. if rough (p - 1) m then m else 0) =
    sieve_sum (p - 1) u - sieve_sum (p - 1) (p - 1)"
proof -
  let ?f = "\<lambda>m. if rough (p - 1) m then m else (0 :: int)"
  let ?g = "\<lambda>m. if unsieved (p - 1) m then m else (0 :: int)"
  have split: "{2..u} = {2..p - 1} \<union> {p..u}" using assms by auto
  have disj: "{2..p - 1} \<inter> {p..u} = {}" by auto
  have low: "sum ?f {2..p - 1} = 0"
  proof (rule sum.neutral, rule ballI)
    fix m assume "m \<in> {2..p - 1}"
    then have "\<not> rough (p - 1) m" unfolding rough_def by auto
    then show "?f m = 0" by simp
  qed
  have high: "sum ?f {p..u} = sum ?g {p..u}"
  proof (rule sum.cong)
    fix m assume "m \<in> {p..u}"
    then have "p - 1 < m" "2 \<le> m" using assms(1) by simp_all
    then show "?f m = ?g m" by (simp add: unsieved_rough)
  qed simp
  have "sum ?f ({2..p - 1} \<union> {p..u}) = sum ?f {2..p - 1} + sum ?f {p..u}"
    by (simp add: sum.union_disjoint disj)
  then have "sum ?f {2..u} = sum ?f {2..p - 1} + sum ?f {p..u}"
    by (simp only: split [symmetric])
  also have "\<dots> = sum ?g {p..u}" by (simp only: low high add_0)
  finally have a: "sum ?f {2..u} = sum ?g {p..u}" .
  have "sum ?g ({2..p - 1} \<union> {p..u}) = sum ?g {2..p - 1} + sum ?g {p..u}"
    by (simp add: sum.union_disjoint disj)
  then have "sum ?g {2..u} = sum ?g {2..p - 1} + sum ?g {p..u}"
    by (simp only: split [symmetric])
  then have "sum ?g {p..u} = sieve_sum (p - 1) u - sieve_sum (p - 1) (p - 1)"
    by (simp add: sieve_sum_def)
  with a show ?thesis by simp
qed

lemma removed_sum:
  assumes p: "2 \<le> p" and pr: "unsieved (p - 1) p"
  shows "(\<Sum>n \<in> {2..v}. if unsieved (p - 1) n \<and> p dvd n \<and> p < n then n else 0) =
    p * (\<Sum>m \<in> {2..v div p}. if rough (p - 1) m then m else 0)"
proof -
  define A where "A = {n \<in> {2..v}. unsieved (p - 1) n \<and> p dvd n \<and> p < n}"
  define B where "B = {m \<in> {2..v div p}. rough (p - 1) m}"
  have rp: "rough (p - 1) p" using pr by (simp add: unsieved_rough)
  have img: "A = (\<lambda>m. p * m) ` B"
  proof (rule set_eqI, rule iffI)
    fix n assume "n \<in> A"
    then have n: "2 \<le> n" "n \<le> v" "unsieved (p - 1) n" "p dvd n" "p < n"
      by (simp_all add: A_def)
    from n(4) obtain m where m: "n = p * m" by (auto simp: dvd_def)
    have m2: "2 \<le> m"
    proof (rule ccontr)
      assume "\<not> 2 \<le> m"
      then have "p * m \<le> p * 1" using p by (intro mult_left_mono) simp_all
      with m n(5) show False by simp
    qed
    have "m = n div p" using m p by simp
    then have mv: "m \<le> v div p" using n(2) p by (simp add: zdiv_mono1)
    have "rough (p - 1) n" using n(3,5) by (simp add: unsieved_rough)
    then have "rough (p - 1) m" unfolding m by (simp add: rough_mult [OF p rp])
    with m2 mv have "m \<in> B" by (simp add: B_def)
    with m show "n \<in> (\<lambda>m. p * m) ` B" by blast
  next
    fix n assume "n \<in> (\<lambda>m. p * m) ` B"
    then obtain m where m: "n = p * m" "2 \<le> m" "m \<le> v div p" "rough (p - 1) m"
      by (auto simp: B_def)
    have "p * 2 \<le> p * m" using m(2) p by (intro mult_left_mono) simp_all
    then have big: "2 * p \<le> n" by (simp add: m(1) mult.commute)
    have "p * m \<le> p * (v div p)" using m(3) p by (intro mult_left_mono) simp_all
    also have "\<dots> \<le> v"
    proof -
      have "v = p * (v div p) + v mod p" by simp
      moreover have "0 \<le> v mod p" using p by simp
      ultimately show ?thesis by linarith
    qed
    finally have nv: "n \<le> v" by (simp add: m(1))
    have "rough (p - 1) n" unfolding m(1) using m(4) by (simp add: rough_mult [OF p rp])
    moreover have n2: "2 \<le> n" "p < n" using big p by linarith+
    ultimately have "unsieved (p - 1) n" by (simp add: unsieved_rough)
    moreover have "p dvd n" by (simp add: m(1))
    ultimately show "n \<in> A" using n2 nv by (simp add: A_def)
  qed
  have inj: "inj_on (\<lambda>m. p * m) B" using p by (intro inj_onI) simp
  have "(\<Sum>n \<in> {2..v}. if unsieved (p - 1) n \<and> p dvd n \<and> p < n then n else 0) = (\<Sum>n \<in> A. n)"
    unfolding A_def by (rule sum.inter_filter [symmetric]) simp
  also have "\<dots> = (\<Sum>m \<in> B. p * m)"
    unfolding img by (simp add: sum.reindex [OF inj])
  also have "\<dots> = p * (\<Sum>m \<in> B. m)" by (simp add: sum_distrib_left)
  also have "(\<Sum>m \<in> B. m) = (\<Sum>m \<in> {2..v div p}. if rough (p - 1) m then m else 0)"
    unfolding B_def by (rule sum.inter_filter) simp
  finally show ?thesis .
qed

lemma sieve_sum_prime:
  assumes p: "2 \<le> p" and pr: "unsieved (p - 1) p" and v: "p * p \<le> v"
  shows "sieve_sum p v =
    sieve_sum (p - 1) v - p * (sieve_sum (p - 1) (v div p) - sieve_sum (p - 1) (p - 1))"
proof -
  have pw: "(if unsieved (p - 1) n then n else 0) - (if unsieved p n then n else 0) =
      (if unsieved (p - 1) n \<and> p dvd n \<and> p < n then n else 0)" for n
  proof (cases "unsieved p n")
    case True
    then have "unsieved (p - 1) n" by (rule unsieved_mono) simp
    moreover have "\<not> (p dvd n \<and> p < n)"
    proof
      assume a: "p dvd n \<and> p < n"
      have "2 \<le> p \<and> p \<le> p \<and> p < n" using p a by simp
      then have "\<not> p dvd n" using True unfolding unsieved_def by blast
      with a show False by simp
    qed
    ultimately have "\<not> (unsieved (p - 1) n \<and> p dvd n \<and> p < n)" "unsieved (p - 1) n"
      by blast+
    then show ?thesis by (simp only: if_P [OF True] if_P if_not_P) simp
  next
    case False
    show ?thesis
    proof (cases "unsieved (p - 1) n")
      case True
      with False have "p dvd n \<and> p < n"
        unfolding unsieved_def by (metis add_diff_cancel_right' le_less zle_diff1_eq)
      with True False show ?thesis by simp
    next
      case False
      then show ?thesis using \<open>\<not> unsieved p n\<close> by simp
    qed
  qed
  have "p * p \<le> p * (v div p) + p * 1"
  proof -
    have "v = p * (v div p) + v mod p" by simp
    moreover have "v mod p < p" using p by simp
    ultimately have "v < p * (v div p) + p" by linarith
    with v show ?thesis by simp
  qed
  then have "p * p \<le> p * (v div p + 1)" by (simp add: algebra_simps)
  then have "p \<le> v div p + 1" using p by simp
  then have u: "p - 1 \<le> v div p" by simp
  have "sieve_sum (p - 1) v - sieve_sum p v =
      (\<Sum>n \<in> {2..v}. if unsieved (p - 1) n \<and> p dvd n \<and> p < n then n else 0)"
    unfolding sieve_sum_def by (simp only: pw flip: sum_subtractf)
  also have "\<dots> = p * (\<Sum>m \<in> {2..v div p}. if rough (p - 1) m then m else 0)"
    by (rule removed_sum [OF p pr])
  also have "\<dots> = p * (sieve_sum (p - 1) (v div p) - sieve_sum (p - 1) (p - 1))"
    by (simp only: rough_sum [OF p u])
  finally show ?thesis by simp
qed

lemma prime_table_code [code]:
  "prime_table R q c acc = prime_table_next (q \<le> R) R q c acc"
  "prime_table_next True R q c acc = prime_table_found (trial_from q 2) R q c acc"
  "prime_table_next False R q c acc = acc"
  "prime_table_found True R q c acc = prime_table R (q + 1) (c + q) ((q, q * q, c) # acc)"
  "prime_table_found False R q c acc = prime_table R (q + 1) c acc"
  by (simp_all add: prime_table_next_def prime_table_found_def prime_table.simps [of R q c acc])

lemma sieve_rec_code [code]:
  "sieve_rec v [] = tri v"
  "sieve_rec v ((p, pp, c) # ps) = sieve_rec_at (pp \<le> v) v p c ps"
  "sieve_rec_at True v p c ps = sieve_rec v ps - p * (sieve_rec (v div p) ps - c)"
  "sieve_rec_at False v p c ps = sieve_rec v ps"
  by (simp_all add: sieve_rec_at_def)

lemma trial_prime_two: "trial_prime 2"
  unfolding trial_prime_def no_divisor_from_def
proof (intro conjI allI impI)
  fix d :: int assume d: "2 \<le> d \<and> d * d \<le> 2"
  then have "2 * 2 \<le> d * d" by (intro mult_mono) simp_all
  with d show "\<not> d dvd 2" by simp
qed simp

lemma sieve_sum_gap:
  assumes "1 \<le> p" "p \<le> q" "\<forall>n. p < n \<and> n \<le> q \<longrightarrow> \<not> trial_prime n"
  shows "sieve_sum q v = sieve_sum p v"
  using assms(2,3)
proof (induction q rule: int_ge_induct)
  case base
  show ?case by simp
next
  case (step q)
  have q: "0 \<le> q" "2 \<le> q + 1" using assms(1) step.hyps by simp_all
  have "\<not> trial_prime (q + 1)" using step.prems step.hyps by simp
  moreover have "m < m * m" if "2 \<le> m" for m :: int
  proof -
    have "m * 2 \<le> m * m" using that by (intro mult_left_mono) simp_all
    with that show ?thesis by linarith
  qed
  then have "q + 1 < (q + 1) * (q + 1)" using q by blast
  ultimately have "\<not> unsieved q (q + 1)"
    using unsieved_trial_prime [of q "q + 1"] q by blast
  then have "sieve_sum (q + 1) v = sieve_sum q v"
    using sieve_sum_composite [of "q + 1" v] q by simp
  moreover have "sieve_sum q v = sieve_sum p v" using step.IH step.prems by simp
  ultimately show ?case by simp
qed

lemma sieve_rec_correct:
  "table_ok q ps \<Longrightarrow> 1 \<le> v \<Longrightarrow> sieve_rec v ps = sieve_sum q v"
proof (induction ps arbitrary: q v)
  case Nil
  then show ?case by (simp add: sieve_sum_base)
next
  case (Cons e ps)
  obtain p pp c where e: "e = (p, pp, c)" by (cases e)
  from Cons.prems(1) have tp: "trial_prime p" and pq: "p \<le> q"
    and gap: "\<forall>n. p < n \<and> n \<le> q \<longrightarrow> \<not> trial_prime n"
    and pp: "pp = p * p" and c: "c = prime_sum 2 p" and ok: "table_ok (p - 1) ps"
    by (simp_all add: e)
  have p2: "2 \<le> p" using tp by (simp add: trial_prime_def)
  have us: "unsieved (p - 1) p" using tp by (rule trial_prime_unsieved)
  have top: "sieve_sum q v = sieve_sum p v" using p2 pq gap by (intro sieve_sum_gap) simp_all
  show ?case
  proof (cases "p * p \<le> v")
    case True
    have "p * 1 \<le> p * p" using p2 by (intro mult_left_mono) simp_all
    with True have "p \<le> v" by simp
    then have "p div p \<le> v div p" using p2 by (intro zdiv_mono1) simp_all
    then have vd: "1 \<le> v div p" using p2 by simp
    have "p - 1 < (p - 1 + 1) * (p - 1 + 1)" using \<open>p * 1 \<le> p * p\<close> by simp
    then have cs: "sieve_sum (p - 1) (p - 1) = c"
      using sieve_sum_prime_sum [of "p - 1" "p - 1"] p2 by (simp add: c)
    have "sieve_rec v (e # ps) = sieve_rec v ps - p * (sieve_rec (v div p) ps - c)"
      using True by (simp add: e pp)
    also have "\<dots> = sieve_sum (p - 1) v - p * (sieve_sum (p - 1) (v div p) - c)"
      using Cons.IH [OF ok Cons.prems(2)] Cons.IH [OF ok vd] by simp
    also have "\<dots> = sieve_sum p v"
      using sieve_sum_prime [OF p2 us True] by (simp add: cs)
    finally show ?thesis by (simp add: top)
  next
    case False
    then have "sieve_rec v (e # ps) = sieve_rec v ps" by (simp add: e pp)
    also have "\<dots> = sieve_sum (p - 1) v" by (rule Cons.IH [OF ok Cons.prems(2)])
    also have "\<dots> = sieve_sum p v" using sieve_sum_small [of p v] p2 False by simp
    finally show ?thesis by (simp add: top)
  qed
qed

lemma table_ok_composite:
  assumes "table_ok (q - 1) ps" "\<not> trial_prime q"
  shows "table_ok q ps"
proof (cases ps)
  case Nil
  with assms(1) have "q \<le> 2" by simp
  moreover have "q \<noteq> 2" using assms(2) trial_prime_two by auto
  ultimately show ?thesis using Nil by simp
next
  case (Cons e ps')
  obtain p pp c where e: "e = (p, pp, c)" by (cases e)
  have "\<not> trial_prime n" if "p < n \<and> n \<le> q" for n
  proof (cases "n = q")
    case True
    then show ?thesis using assms(2) by simp
  next
    case False
    with that assms(1) show ?thesis by (simp add: Cons e)
  qed
  then show ?thesis using assms(1) by (simp add: Cons e)
qed

lemma prime_table_ok:
  "2 \<le> q \<Longrightarrow> q \<le> R + 1 \<Longrightarrow> table_ok (q - 1) acc \<Longrightarrow> c = prime_sum 2 q \<Longrightarrow>
     table_ok R (prime_table R q c acc)"
proof (induction R q c acc rule: prime_table.induct)
  case (1 R q c acc)
  show ?case
  proof (cases "q \<le> R")
    case False
    with "1.prems" have "q - 1 = R" by simp
    with "1.prems"(3) False show ?thesis by (simp add: prime_table.simps [of R q c acc])
  next
    case True
    have tf: "trial_from q 2 = trial_prime q" using "1.prems"(1) by (simp add: trial_prime_code)
    show ?thesis
    proof (cases "trial_prime q")
      case tp: True
      have "table_ok (q + 1 - 1) ((q, q * q, c) # acc)"
        using tp "1.prems"(3,4) by auto
      moreover have "c + q = prime_sum 2 (q + 1)"
        using "1.prems"(1,4) tp by (simp add: prime_sum_last)
      ultimately have "table_ok R (prime_table R (q + 1) (c + q) ((q, q * q, c) # acc))"
        using "1.IH"(1) [OF True] tp tf "1.prems"(1) True by simp
      then show ?thesis using True tp tf by (simp add: prime_table.simps [of R q c acc])
    next
      case ntp: False
      have "table_ok (q + 1 - 1) acc"
        using table_ok_composite [OF "1.prems"(3) ntp] by simp
      moreover have "c = prime_sum 2 (q + 1)"
        using "1.prems"(1,4) ntp by (simp add: prime_sum_last)
      ultimately have "table_ok R (prime_table R (q + 1) c acc)"
        using "1.IH"(2) [OF True] ntp tf "1.prems"(1) True by simp
      then show ?thesis using True ntp tf by (simp add: prime_table.simps [of R q c acc])
    qed
  qed
qed

lemma prime_sum_upto_correct:
  assumes "1 \<le> N" "1 \<le> R" "N < (R + 1) * (R + 1)"
  shows "prime_sum_upto N R = prime_sum 2 (N + 1)"
proof -
  have "table_ok R (prime_table R 2 0 [])"
    using assms(2) by (intro prime_table_ok) (simp_all add: prime_sum_empty)
  then have "prime_sum_upto N R = sieve_sum R N"
    unfolding prime_sum_upto_def using assms(1) by (rule sieve_rec_correct)
  also have "\<dots> = prime_sum 2 (N + 1)"
    using assms(2,3) by (intro sieve_sum_prime_sum) simp_all
  finally show ?thesis .
qed

section \<open>The final sum: results\<close>

lemma prime_sum_upto_million: "prime_sum_upto 999999 999 = 37550402023"
  by code_simp

lemma prime_sum_million: "prime_sum 2 1000000 = 37550402023"
  using prime_sum_upto_correct [of 999999 999] by (simp add: prime_sum_upto_million)

lemma show_int_final_sum: "show_int 37550402023 = ''37550402023''"
  by code_simp

lemma state_bounds:
  fixes i :: c_int and acc :: c_long_long
  assumes "2 \<le> sint i \<and> sint i \<le> 1000000 \<and> acc = word_of_int (prime_sum 2 (sint i))"
  shows "0 \<le> sint acc" and "sint acc \<le> 37550402023"
proof -
  have i: "2 \<le> sint i" "sint i \<le> 1000000" and acc: "acc = word_of_int (prime_sum 2 (sint i))"
    using assms by blast+
  have s: "sint acc = prime_sum 2 (sint i)"
    unfolding acc by (rule sint_prime_sum [OF i])
  show "0 \<le> sint acc" unfolding s by (rule prime_sum_nonneg) simp
  have "0 \<le> prime_sum (sint i) 1000000" using i(1) by (intro prime_sum_nonneg) simp
  moreover have "prime_sum 2 1000000 = prime_sum 2 (sint i) + prime_sum (sint i) 1000000"
    using i by (rule prime_sum_split)
  ultimately show "sint acc \<le> 37550402023" unfolding s by (simp only: prime_sum_million)
qed

lemma step_exact:
  fixes i :: c_int and acc :: c_long_long
  assumes "2 \<le> sint i \<and> sint i \<le> 1000000 \<and> acc = word_of_int (prime_sum 2 (sint i))"
    and "i <s 1000000"
  shows "sint (acc + word_of_int (if trial_prime (sint i) then sint i else 0)) =
      sint acc + (if trial_prime (sint i) then sint i else 0)"
proof -
  have lt: "sint i < 1000000" using assms(2) by (simp only: sless_million_iff)
  have i: "2 \<le> sint i" and acc: "acc = word_of_int (prime_sum 2 (sint i))"
    using assms(1) by blast+
  show ?thesis by (rule step_from_state(2) [OF i lt acc])
qed

lemma final_state_cpp: "loop_state_cpp 1000000 37550402023"
  using loop_state_cpp_reached [of 1000000] by (simp add: prime_sum_million)

lemma final_state_c: "loop_state_c 1000000 37550402023"
  using loop_state_c_reached [of 1000000] by (simp add: prime_sum_million)

text \<open>
  Claim C1. The summation driver, started at \<open>i = 2\<close> with \<open>sum = 0\<close> and run until
  \<open>i = 1000000\<close>, returns exactly \<open>37550402023\<close>, in the C program and in the C++ program:
  this is the state in which the loop is left, it is the sum of the integers of
  \<open>[2, 1000000)\<close> that trial division accepts, and the first line either program prints is
  \<open>Sum: 37550402023\<close>.
\<close>

theorem final_sum:
  "main_sum_cpp = Some 37550402023 \<and> main_sum_c = Some 37550402023 \<and>
   sum_loop_cpp 2 0 = Some 37550402023 \<and> sum_loop_c 2 0 = Some 37550402023 \<and>
   loop_state_cpp 1000000 37550402023 \<and> loop_state_c 1000000 37550402023 \<and>
   prime_sum 2 1000000 = 37550402023 \<and>
   main_cpp t = Some [''Sum: 37550402023'', time_line_cpp t] \<and>
   main_c t = Some [''Sum: 37550402023'', time_line_c t]"
proof -
  have m: "main_sum_cpp = Some 37550402023" "main_sum_c = Some 37550402023"
    by (simp_all add: main_sum_cpp_eq main_sum_c_eq prime_sum_million)
  then have l: "sum_loop_cpp 2 0 = Some 37550402023" "sum_loop_c 2 0 = Some 37550402023"
    by (simp_all only: main_sum_cpp_def main_sum_c_def)
  have s: "sint (37550402023 :: c_long_long) = 37550402023" by simp
  have o: "main_cpp t = Some [''Sum: 37550402023'', time_line_cpp t]"
    "main_c t = Some [''Sum: 37550402023'', time_line_c t]"
    by (simp_all add: main_cpp_def main_c_def m sum_line_cpp_def sum_line_c_def s
        show_int_final_sum)
  show ?thesis
    by (intro conjI m l o final_state_cpp final_state_c prime_sum_million)
qed

text \<open>
  Claim C9. The accumulator never overflows. In every state the driver's loop reaches,
  the accumulator, read as a signed 64-bit integer, lies between \<open>0\<close> and \<open>37550402023\<close>;
  from every such state with \<open>i < 1000000\<close> the iteration returns the exact sum, without
  wrap-around: the new accumulator is the old one plus \<open>i\<close> if the primality test
  accepts \<open>i\<close>, and the old one otherwise, and the mathematical sum of the accumulator
  and \<open>i\<close> is below \<open>2 ^ 63\<close>. The final sum is \<open>37550402023\<close>, which is at least
  \<open>2 ^ 35\<close> and below \<open>2 ^ 36\<close>: it fits in 36 bits.
\<close>

theorem no_overflow:
  "(loop_state_cpp i acc \<longrightarrow>
      0 \<le> sint acc \<and> sint acc \<le> 37550402023 \<and> sint acc + sint i < 2 ^ 63 \<and>
      (i <s 1000000 \<longrightarrow>
         (\<exists>b acc'. is_prime_cpp i = Some b \<and> sum_step_cpp i acc = Some acc' \<and>
            loop_state_cpp (i + 1) acc' \<and>
            sint acc' = sint acc + (if b then sint i else 0)))) \<and>
   (loop_state_c i acc \<longrightarrow>
      0 \<le> sint acc \<and> sint acc \<le> 37550402023 \<and> sint acc + sint i < 2 ^ 63 \<and>
      (i <s 1000000 \<longrightarrow>
         (\<exists>b acc'. is_prime_c i = Some b \<and> sum_step_c i acc = Some acc' \<and>
            loop_state_c (i + 1) acc' \<and>
            sint acc' = sint acc + (if b \<noteq> 0 then sint i else 0)))) \<and>
   (\<exists>s. main_sum_cpp = Some s \<and> main_sum_c = Some s \<and>
      loop_state_cpp 1000000 s \<and> loop_state_c 1000000 s \<and>
      sint s = 37550402023 \<and> 2 ^ 35 \<le> sint s \<and> sint s < 2 ^ 36)"
proof (intro conjI impI)
  assume ls: "loop_state_cpp i acc"
  note inv = loop_state_cpp_inv [OF ls]
  show "0 \<le> sint acc" by (rule state_bounds(1) [OF inv])
  show le: "sint acc \<le> 37550402023" by (rule state_bounds(2) [OF inv])
  have "sint i \<le> 1000000" using inv by blast
  with le show "sint acc + sint i < 2 ^ 63" by simp
  assume lt: "i <s 1000000"
  define acc' where "acc' = acc + word_of_int (if trial_prime (sint i) then sint i else 0)"
  have st: "sum_step_cpp i acc = Some acc'" by (simp only: sum_step_cpp_eq acc'_def)
  have "sint acc' = sint acc + (if trial_prime (sint i) then sint i else 0)"
    unfolding acc'_def by (rule step_exact [OF inv lt])
  moreover have "is_prime_cpp i = Some (trial_prime (sint i))" by (rule is_prime_cpp_eq)
  moreover have "loop_state_cpp (i + 1) acc'" by (rule step_cpp [OF ls lt st])
  ultimately show "\<exists>b acc'. is_prime_cpp i = Some b \<and> sum_step_cpp i acc = Some acc' \<and>
      loop_state_cpp (i + 1) acc' \<and> sint acc' = sint acc + (if b then sint i else 0)"
    using st by blast
next
  assume ls: "loop_state_c i acc"
  note inv = loop_state_c_inv [OF ls]
  show "0 \<le> sint acc" by (rule state_bounds(1) [OF inv])
  show le: "sint acc \<le> 37550402023" by (rule state_bounds(2) [OF inv])
  have "sint i \<le> 1000000" using inv by blast
  with le show "sint acc + sint i < 2 ^ 63" by simp
  assume lt: "i <s 1000000"
  define acc' where "acc' = acc + word_of_int (if trial_prime (sint i) then sint i else 0)"
  define b :: c_int where "b = (if trial_prime (sint i) then 1 else 0)"
  have st: "sum_step_c i acc = Some acc'" by (simp only: sum_step_c_eq acc'_def)
  have "sint acc' = sint acc + (if trial_prime (sint i) then sint i else 0)"
    unfolding acc'_def by (rule step_exact [OF inv lt])
  then have "sint acc' = sint acc + (if b \<noteq> 0 then sint i else 0)" by (simp add: b_def)
  moreover have "is_prime_c i = Some b" by (simp only: is_prime_c_eq b_def)
  moreover have "loop_state_c (i + 1) acc'" by (rule step_c [OF ls lt st])
  ultimately show "\<exists>b acc'. is_prime_c i = Some b \<and> sum_step_c i acc = Some acc' \<and>
      loop_state_c (i + 1) acc' \<and> sint acc' = sint acc + (if b \<noteq> 0 then sint i else 0)"
    using st by blast
next
  have "main_sum_cpp = Some 37550402023" "main_sum_c = Some 37550402023"
    by (simp_all add: main_sum_cpp_eq main_sum_c_eq prime_sum_million)
  moreover have "sint (37550402023 :: c_long_long) = 37550402023" by simp
  moreover have "(2 :: int) ^ 35 \<le> 37550402023" "(37550402023 :: int) < 2 ^ 36" by simp_all
  ultimately show "\<exists>s. main_sum_cpp = Some s \<and> main_sum_c = Some s \<and>
      loop_state_cpp 1000000 s \<and> loop_state_c 1000000 s \<and>
      sint s = 37550402023 \<and> 2 ^ 35 \<le> sint s \<and> sint s < 2 ^ 36"
    using final_state_cpp final_state_c by (intro exI [of _ 37550402023]) simp
qed

theorem no_overflow_witness:
  "loop_state_cpp 2 0 \<and> loop_state_c 2 0 \<and> (2 :: c_int) <s 1000000 \<and>
   sint (0 :: c_long_long) + sint (2 :: c_int) < 2 ^ 63 \<and>
   (\<exists>b acc'. is_prime_cpp 2 = Some b \<and> sum_step_cpp 2 0 = Some acc' \<and>
      loop_state_cpp (2 + 1) acc' \<and> sint acc' = sint (0 :: c_long_long) + (if b then sint (2 :: c_int) else 0)) \<and>
   (\<exists>b acc'. is_prime_c 2 = Some b \<and> sum_step_c 2 0 = Some acc' \<and>
      loop_state_c (2 + 1) acc' \<and> sint acc' = sint (0 :: c_long_long) + (if b \<noteq> 0 then sint (2 :: c_int) else 0))"
proof -
  have h: "(2 :: c_int) <s 1000000" by (simp add: sless_million_iff)
  show ?thesis using h init_cpp init_c no_overflow [of 2 0] by blast
qed

end
